theory Spec2Isabelle
  imports Main "HOL-Library.Word"
begin

unbundle bit_operations_syntax

section \<open>Machine types of Adafruit\_SPITFT\<close>

text \<open>
  Pixel colours are \<open>uint16_t\<close> and bus bytes \<open>uint8_t\<close>: words of that width.
  Coordinates and extents are \<open>int16_t\<close>. C++ evaluates their arithmetic in \<open>int\<close>
  and narrows on assignment, so a coordinate is an \<open>int\<close> here and every assignment
  to an \<open>int16_t\<close> variable goes through \<open>wrap16\<close>.
\<close>

type_synonym u8 = "8 word"
type_synonym u16 = "16 word"

definition int16 :: "int \<Rightarrow> bool" where
  "int16 v = (- 32768 \<le> v \<and> v \<le> 32767)"

definition wrap16 :: "int \<Rightarrow> int" where
  "wrap16 v = (v + 32768) mod 65536 - 32768"

definition wrap32 :: "int \<Rightarrow> int" where
  "wrap32 v = (v + 2147483648) mod 4294967296 - 2147483648"

definition to_uint16 :: "int \<Rightarrow> int" where
  "to_uint16 v = v mod 65536"

definition to_uint32 :: "int \<Rightarrow> int" where
  "to_uint32 v = v mod 4294967296"

text \<open>
  \<open>highByte\<close> and \<open>lowByte\<close> are macros of the Arduino core, which is not part of the
  sources: \<open>highByte(w) = (uint8_t)(w >> 8)\<close>, \<open>lowByte(w) = (uint8_t)(w & 0xff)\<close>.
\<close>

definition highByte :: "u16 \<Rightarrow> u8" where
  "highByte w = ucast (drop_bit 8 w)"

definition lowByte :: "u16 \<Rightarrow> u8" where
  "lowByte w = ucast (w AND 0xff)"

text \<open>\<open>SWAP_BYTES\<close> of the header.\<close>

definition SWAP_BYTES :: "u16 \<Rightarrow> u16" where
  "SWAP_BYTES x = push_bit 8 (x AND 0x00ff) OR (drop_bit 8 (x AND 0xff00) AND 0x00ff)"

text \<open>\<open>color565\<close>: the three operands are promoted to \<open>int\<close>; the result fits 16 bits.\<close>

definition color565 :: "u8 \<Rightarrow> u8 \<Rightarrow> u8 \<Rightarrow> u16" where
  "color565 red green blue =
     push_bit 8 (ucast (red AND 0xF8)) OR push_bit 3 (ucast (green AND 0xFC))
       OR ucast (drop_bit 3 blue)"

section \<open>Display state and bus trace\<close>

text \<open>
  The connection is fixed by the constructor to one of two values. Everything the class does
  to the outside is recorded, in order, in \<open>bus\<close>: the chip-select level, the subclass'
  \<open>setAddrWindow\<close> (pure virtual: the call is recorded with its \<open>uint16_t\<close> arguments),
  a block transfer \<open>hwspi._spi->write(buf, n, NULL, 0)\<close> with the bytes it sends, and
  the data and clock levels of the bit-banged connection. \<open>gfx_width\<close> and \<open>gfx_height\<close>
  are \<open>_width\<close> and \<open>_height\<close> of \<open>Adafruit_GFX\<close>; \<open>spi_buffer\<close> is the block
  of \<open>SPI_BUFFER_SIZE\<close> bytes that \<open>initSPI\<close> allocates.
\<close>

datatype connection_t = TFT_HARD_SPI | TFT_SOFT_SPI

datatype event =
    CS bool
  | SetAddrWindow int int int int
  | HwWrite "u8 list"
  | MOSI bool
  | SCK bool

record tft =
  connection :: connection_t
  gfx_width :: int
  gfx_height :: int
  spi_buffer :: "u8 list"
  bus :: "event list"

definition SPI_BUFFER_SIZE :: nat where
  "SPI_BUFFER_SIZE = 1024"

definition emit :: "event list \<Rightarrow> tft \<Rightarrow> tft" where
  "emit es s = s\<lparr>bus := bus s @ es\<rparr>"

text \<open>
  \<open>startWrite\<close> and \<open>endWrite\<close>: \<open>SPI_BEGIN_TRANSACTION\<close> and \<open>SPI_END_TRANSACTION\<close>
  have empty bodies, and \<open>_cs >= 0\<close> reads the level of a \<open>DigitalInOut\<close> (0 or 1), so the
  chip-select line is always driven.
\<close>

definition startWrite :: "tft \<Rightarrow> tft" where
  "startWrite s = emit [CS False] s"

definition endWrite :: "tft \<Rightarrow> tft" where
  "endWrite s = emit [CS True] s"

definition setAddrWindow :: "int \<Rightarrow> int \<Rightarrow> int \<Rightarrow> int \<Rightarrow> tft \<Rightarrow> tft" where
  "setAddrWindow x y w h s =
     emit [SetAddrWindow (to_uint16 x) (to_uint16 y) (to_uint16 w) (to_uint16 h)] s"

text \<open>The bit-bang loop of \<open>SPI_WRITE16\<close> and of \<open>writeColor\<close>: most significant bit first.\<close>

fun bitbang :: "nat \<Rightarrow> u16 \<Rightarrow> event list" where
  "bitbang 0 w = []"
| "bitbang (Suc n) w =
     [MOSI (w AND 0x8000 \<noteq> 0), SCK True, SCK False] @ bitbang n (push_bit 1 w)"

definition SPI_WRITE16 :: "u16 \<Rightarrow> tft \<Rightarrow> tft" where
  "SPI_WRITE16 w s =
     (case connection s of
        TFT_HARD_SPI \<Rightarrow> emit [HwWrite [ucast (drop_bit 8 w), ucast w]] s
      | TFT_SOFT_SPI \<Rightarrow> emit (bitbang 16 w) s)"

definition writePixel :: "int \<Rightarrow> int \<Rightarrow> u16 \<Rightarrow> tft \<Rightarrow> tft" where
  "writePixel x y color s =
     (if x \<ge> 0 \<and> x < gfx_width s \<and> y \<ge> 0 \<and> y < gfx_height s
      then SPI_WRITE16 color (setAddrWindow x y 1 1 s)
      else s)"

section \<open>The scratch buffer\<close>

text \<open>
  The buffer is a byte array. \<open>writeColor\<close> and \<open>drawXBitmap\<close> store 16-bit values
  through a \<open>uint16_t\<close> pointer into it; the targets are little-endian (the source swaps
  the bytes of a colour before such a store to get the high byte out first), so slot \<open>k\<close>
  is bytes \<open>2k\<close> (low) and \<open>2k + 1\<close> (high). A store past the end of the block is
  undefined in C++; here it leaves the list as it is, and the theorems keep to stores
  inside the block.
\<close>

definition store16 :: "u8 list \<Rightarrow> nat \<Rightarrow> u16 \<Rightarrow> u8 list" where
  "store16 buf k v = buf[2 * k := lowByte v, 2 * k + 1 := highByte v]"

definition memset :: "u8 list \<Rightarrow> u8 \<Rightarrow> nat \<Rightarrow> u8 list" where
  "memset buf v n = replicate n v @ drop n buf"

function fill16 :: "u16 \<Rightarrow> nat \<Rightarrow> u8 list \<Rightarrow> u8 list" where
  "fill16 data k buf =
     (if 2 * k < SPI_BUFFER_SIZE then fill16 data (k + 1) (store16 buf k data) else buf)"
  by pat_completeness auto
termination
  by (relation "measure (\<lambda>(data, k, buf). SPI_BUFFER_SIZE - 2 * k)") auto

declare fill16.simps [simp del]

text \<open>
  The transfer loop of \<open>writeColor\<close>:
  \<open>for (int remaining_bytes = 2 * len; remaining_bytes > 0; remaining_bytes -= SPI_BUFFER_SIZE)\<close>,
  each round one block of \<open>min(remaining_bytes, SPI_BUFFER_SIZE)\<close> bytes of the buffer.
\<close>

function hw_write_chunks :: "u8 list \<Rightarrow> int \<Rightarrow> event list" where
  "hw_write_chunks buf remaining_bytes =
     (if remaining_bytes > 0
      then HwWrite (take (nat (min remaining_bytes (int SPI_BUFFER_SIZE))) buf)
             # hw_write_chunks buf (remaining_bytes - int SPI_BUFFER_SIZE)
      else [])"
  by pat_completeness auto
termination
  by (relation "measure (\<lambda>(buf, r). nat r)") (auto simp: SPI_BUFFER_SIZE_def)

declare hw_write_chunks.simps [simp del]

text \<open>
  \<open>writeColor(color, len)\<close>, \<open>len\<close> a \<open>uint32_t\<close>. \<open>2 * len\<close> is computed in
  \<open>uint32_t\<close> and converted to the 32-bit \<open>int remaining_bytes\<close>.
\<close>

definition stage_color :: "u16 \<Rightarrow> u8 list \<Rightarrow> u8 list" where
  "stage_color color buf =
     (let hi = highByte color; lo = lowByte color in
      if hi = lo then memset buf hi SPI_BUFFER_SIZE
      else fill16 (SWAP_BYTES color) 0 buf)"

definition writeColor :: "u16 \<Rightarrow> nat \<Rightarrow> tft \<Rightarrow> tft" where
  "writeColor color len s =
     (if len = 0 then s
      else case connection s of
        TFT_HARD_SPI \<Rightarrow>
          (let buf = stage_color color (spi_buffer s) in
           emit (hw_write_chunks buf (wrap32 (to_uint32 (2 * int len))))
             (s\<lparr>spi_buffer := buf\<rparr>))
      | TFT_SOFT_SPI \<Rightarrow> emit (concat (replicate len (bitbang 16 color))) s)"

section \<open>Pixel streams\<close>

text \<open>
  \<open>writePixels(colors, len, block, bigEndian)\<close>. \<open>colors\<close> is a pointer: the memory
  read through it, by element index. The inner loop packs pixels from the start of the
  buffer, two bytes each, until the buffer is full or the pixels are used up; the outer loop
  sends one block per round. Neither \<open>block\<close> nor \<open>bigEndian\<close> is read: both concern
  the DMA transfer, which \<open>USE_SPI_DMA\<close> (undefined in the header) leaves out.
\<close>

function fill_pixels :: "(nat \<Rightarrow> u16) \<Rightarrow> nat \<Rightarrow> nat \<Rightarrow> nat \<Rightarrow> u8 list \<Rightarrow> nat \<times> u8 list" where
  "fill_pixels colors len p i buf =
     (if p < SPI_BUFFER_SIZE \<and> i < len
      then fill_pixels colors len (p + 2) (i + 1)
             (buf[p := highByte (colors i), p + 1 := lowByte (colors i)])
      else (i, buf))"
  by pat_completeness auto
termination
  by (relation "measure (\<lambda>(colors, len, p, i, buf). SPI_BUFFER_SIZE - p)") auto

declare fill_pixels.simps [simp del]

function writePixels_loop :: "(nat \<Rightarrow> u16) \<Rightarrow> nat \<Rightarrow> nat \<Rightarrow> int \<Rightarrow> tft \<Rightarrow> tft" where
  "writePixels_loop colors len i remaining_bytes s =
     (if remaining_bytes > 0
      then (case fill_pixels colors len 0 i (spi_buffer s) of
              (i', buf) \<Rightarrow>
                writePixels_loop colors len i' (remaining_bytes - int SPI_BUFFER_SIZE)
                  (emit [HwWrite (take (nat (min remaining_bytes (int SPI_BUFFER_SIZE))) buf)]
                     (s\<lparr>spi_buffer := buf\<rparr>)))
      else s)"
  by pat_completeness auto
termination
  by (relation "measure (\<lambda>(colors, len, i, r, s). nat r)") (auto simp: SPI_BUFFER_SIZE_def)

declare writePixels_loop.simps [simp del]

definition writePixels :: "(nat \<Rightarrow> u16) \<Rightarrow> nat \<Rightarrow> bool \<Rightarrow> bool \<Rightarrow> tft \<Rightarrow> tft" where
  "writePixels colors len block bigEndian s =
     (if len = 0 then s
      else case connection s of
        TFT_HARD_SPI \<Rightarrow> writePixels_loop colors len 0 (wrap32 (to_uint32 (2 * int len))) s
      | TFT_SOFT_SPI \<Rightarrow> fold (\<lambda>i. SPI_WRITE16 (colors i)) [0..<len] s)"

section \<open>Rectangles and lines\<close>

text \<open>
  \<open>writeFillRectPreclipped\<close>: the pixel count is \<open>(uint32_t)w * h\<close>, a product of
  \<open>uint32_t\<close>.
\<close>

definition writeFillRectPreclipped :: "int \<Rightarrow> int \<Rightarrow> int \<Rightarrow> int \<Rightarrow> u16 \<Rightarrow> tft \<Rightarrow> tft" where
  "writeFillRectPreclipped x y w h color s =
     writeColor color (nat (to_uint32 (to_uint32 w * to_uint32 h))) (setAddrWindow x y w h s)"

text \<open>
  The step for a negative extent, \<open>x += w + 1; w = -w;\<close> (and the same text for \<open>y\<close> and
  \<open>h\<close>): both assignments narrow to \<open>int16_t\<close>.
\<close>

definition normalize :: "int \<Rightarrow> int \<Rightarrow> int \<times> int" where
  "normalize x w = (if w < 0 then (wrap16 (x + w + 1), wrap16 (- w)) else (x, w))"

text \<open>
  \<open>fillRect\<close> repeats the rejection and clipping of \<open>writeFillRect\<close> word for word and
  adds the transaction around the call of \<open>writeFillRectPreclipped\<close>, as its own comment
  says; that shared text is \<open>clip_rect\<close>, which returns the arguments the call gets, or
  \<open>None\<close> when the nested conditions never reach the call. \<open>clip_hline\<close> and
  \<open>clip_vline\<close> are the same for the two pairs of line functions.
\<close>

definition clip_rect :: "int \<Rightarrow> int \<Rightarrow> int \<Rightarrow> int \<Rightarrow> int \<Rightarrow> int \<Rightarrow> (int \<times> int \<times> int \<times> int) option" where
  "clip_rect gw gh x y w h =
     (if w \<noteq> 0 \<and> h \<noteq> 0 then
        (case normalize x w of (x, w) \<Rightarrow>
           if x < gw then
             (case normalize y h of (y, h) \<Rightarrow>
                if y < gh then
                  (let x2 = wrap16 (x + w - 1) in
                   if x2 \<ge> 0 then
                     (let y2 = wrap16 (y + h - 1) in
                      if y2 \<ge> 0 then
                        (case (if x < 0 then (0, wrap16 (x2 + 1)) else (x, w)) of (x, w) \<Rightarrow>
                         case (if y < 0 then (0, wrap16 (y2 + 1)) else (y, h)) of (y, h) \<Rightarrow>
                           (let w = (if x2 \<ge> gw then wrap16 (gw - x) else w);
                                h = (if y2 \<ge> gh then wrap16 (gh - y) else h)
                            in Some (x, y, w, h)))
                      else None)
                   else None)
                else None)
           else None)
      else None)"

definition clip_hline :: "int \<Rightarrow> int \<Rightarrow> int \<Rightarrow> int \<Rightarrow> int \<Rightarrow> (int \<times> int \<times> int \<times> int) option" where
  "clip_hline gw gh x y w =
     (if y \<ge> 0 \<and> y < gh \<and> w \<noteq> 0 then
        (case normalize x w of (x, w) \<Rightarrow>
           if x < gw then
             (let x2 = wrap16 (x + w - 1) in
              if x2 \<ge> 0 then
                (case (if x < 0 then (0, wrap16 (x2 + 1)) else (x, w)) of (x, w) \<Rightarrow>
                   (let w = (if x2 \<ge> gw then wrap16 (gw - x) else w)
                    in Some (x, y, w, 1)))
              else None)
           else None)
      else None)"

definition clip_vline :: "int \<Rightarrow> int \<Rightarrow> int \<Rightarrow> int \<Rightarrow> int \<Rightarrow> (int \<times> int \<times> int \<times> int) option" where
  "clip_vline gw gh x y h =
     (if x \<ge> 0 \<and> x < gw \<and> h \<noteq> 0 then
        (case normalize y h of (y, h) \<Rightarrow>
           if y < gh then
             (let y2 = wrap16 (y + h - 1) in
              if y2 \<ge> 0 then
                (case (if y < 0 then (0, wrap16 (y2 + 1)) else (y, h)) of (y, h) \<Rightarrow>
                   (let h = (if y2 \<ge> gh then wrap16 (gh - y) else h)
                    in Some (x, y, 1, h)))
              else None)
           else None)
      else None)"

definition writeFillRect :: "int \<Rightarrow> int \<Rightarrow> int \<Rightarrow> int \<Rightarrow> u16 \<Rightarrow> tft \<Rightarrow> tft" where
  "writeFillRect x y w h color s =
     (case clip_rect (gfx_width s) (gfx_height s) x y w h of
        None \<Rightarrow> s
      | Some (x, y, w, h) \<Rightarrow> writeFillRectPreclipped x y w h color s)"

definition writeFastHLine :: "int \<Rightarrow> int \<Rightarrow> int \<Rightarrow> u16 \<Rightarrow> tft \<Rightarrow> tft" where
  "writeFastHLine x y w color s =
     (case clip_hline (gfx_width s) (gfx_height s) x y w of
        None \<Rightarrow> s
      | Some (x, y, w, h) \<Rightarrow> writeFillRectPreclipped x y w h color s)"

definition writeFastVLine :: "int \<Rightarrow> int \<Rightarrow> int \<Rightarrow> u16 \<Rightarrow> tft \<Rightarrow> tft" where
  "writeFastVLine x y h color s =
     (case clip_vline (gfx_width s) (gfx_height s) x y h of
        None \<Rightarrow> s
      | Some (x, y, w, h) \<Rightarrow> writeFillRectPreclipped x y w h color s)"

section \<open>Self-contained operations\<close>

definition drawPixel :: "int \<Rightarrow> int \<Rightarrow> u16 \<Rightarrow> tft \<Rightarrow> tft" where
  "drawPixel x y color s =
     (if x \<ge> 0 \<and> x < gfx_width s \<and> y \<ge> 0 \<and> y < gfx_height s
      then endWrite (SPI_WRITE16 color (setAddrWindow x y 1 1 (startWrite s)))
      else s)"

definition fillRect :: "int \<Rightarrow> int \<Rightarrow> int \<Rightarrow> int \<Rightarrow> u16 \<Rightarrow> tft \<Rightarrow> tft" where
  "fillRect x y w h color s =
     (case clip_rect (gfx_width s) (gfx_height s) x y w h of
        None \<Rightarrow> s
      | Some (x, y, w, h) \<Rightarrow> endWrite (writeFillRectPreclipped x y w h color (startWrite s)))"

definition drawFastHLine :: "int \<Rightarrow> int \<Rightarrow> int \<Rightarrow> u16 \<Rightarrow> tft \<Rightarrow> tft" where
  "drawFastHLine x y w color s =
     (case clip_hline (gfx_width s) (gfx_height s) x y w of
        None \<Rightarrow> s
      | Some (x, y, w, h) \<Rightarrow> endWrite (writeFillRectPreclipped x y w h color (startWrite s)))"

definition drawFastVLine :: "int \<Rightarrow> int \<Rightarrow> int \<Rightarrow> u16 \<Rightarrow> tft \<Rightarrow> tft" where
  "drawFastVLine x y h color s =
     (case clip_vline (gfx_width s) (gfx_height s) x y h of
        None \<Rightarrow> s
      | Some (x, y, w, h) \<Rightarrow> endWrite (writeFillRectPreclipped x y w h color (startWrite s)))"

definition pushColor :: "u16 \<Rightarrow> tft \<Rightarrow> tft" where
  "pushColor color s = endWrite (SPI_WRITE16 color (startWrite s))"

section \<open>Bitmaps\<close>

text \<open>
  \<open>drawRGBBitmap(x, y, pcolors, w, h)\<close>. \<open>pcolors\<close> is the memory read through the
  pointer, by element offset from its value at the call; \<open>off\<close> is what has been added
  to it. \<open>while (h--)\<close> on an \<open>int16_t\<close> runs \<open>h mod 65536\<close> rounds. The row's
  \<open>writePixels(pcolors, w)\<close> takes the default \<open>block = true\<close>, \<open>bigEndian = false\<close>
  and converts \<open>w\<close> to \<open>uint32_t\<close>.
\<close>

primrec rgb_rows :: "nat \<Rightarrow> (int \<Rightarrow> u16) \<Rightarrow> int \<Rightarrow> int \<Rightarrow> int \<Rightarrow> tft \<Rightarrow> tft" where
  "rgb_rows 0 pcolors off w saveW s = s"
| "rgb_rows (Suc n) pcolors off w saveW s =
     rgb_rows n pcolors (off + saveW) w saveW
       (writePixels (\<lambda>i. pcolors (off + int i)) (nat (to_uint32 w)) True False s)"

definition drawRGBBitmap :: "int \<Rightarrow> int \<Rightarrow> (int \<Rightarrow> u16) \<Rightarrow> int \<Rightarrow> int \<Rightarrow> tft \<Rightarrow> tft" where
  "drawRGBBitmap x y pcolors w h s =
     (let x2 = wrap16 (x + w - 1); y2 = wrap16 (y + h - 1) in
      if x \<ge> gfx_width s \<or> y \<ge> gfx_height s \<or> x2 < 0 \<or> y2 < 0 then s
      else
        (let saveW = w in
         case (if x < 0 then (wrap16 (w + x), wrap16 (- x), 0) else (w, 0, x)) of (w, bx1, x) \<Rightarrow>
         case (if y < 0 then (wrap16 (h + y), wrap16 (- y), 0) else (h, 0, y)) of (h, by1, y) \<Rightarrow>
           (let w = (if x2 \<ge> gfx_width s then wrap16 (gfx_width s - x) else w);
                h = (if y2 \<ge> gfx_height s then wrap16 (gfx_height s - y) else h)
            in endWrite
                 (rgb_rows (nat (to_uint16 h)) pcolors (by1 * saveW + bx1) w saveW
                    (setAddrWindow x y w h (startWrite s))))))"

text \<open>
  \<open>drawXBitmap(x, y, bitmap, w, h, fg_color, bg_color)\<close>. \<open>bitmap\<close> is the flash memory
  read through the pointer by \<open>pgm_read_byte\<close>, by index. \<open>/\<close> of C++ truncates towards
  zero. The loop counters stay below \<open>w\<close> and \<open>h\<close>, so \<open>i++\<close> and \<open>j++\<close> do not wrap;
  \<open>y++\<close> narrows. \<open>byte\<close> is declared once, before both loops.
\<close>

definition c_div8 :: "int \<Rightarrow> int" where
  "c_div8 v = (if v \<ge> 0 then v div 8 else - ((- v) div 8))"

function xbm_cols :: "(int \<Rightarrow> u8) \<Rightarrow> int \<Rightarrow> int \<Rightarrow> int \<Rightarrow> u16 \<Rightarrow> u16 \<Rightarrow> int \<Rightarrow> u8 \<Rightarrow> u8 list \<Rightarrow> u8 \<times> u8 list" where
  "xbm_cols bitmap j byteWidth w fg_color_data bg_color_data i byte buf =
     (if i < w then
        (let byte' = (if i AND 7 \<noteq> 0 then drop_bit 1 byte
                      else bitmap (j * byteWidth + c_div8 i))
         in xbm_cols bitmap j byteWidth w fg_color_data bg_color_data (i + 1) byte'
              (store16 buf (nat i) (if byte' AND 0x01 \<noteq> 0 then fg_color_data else bg_color_data)))
      else (byte, buf))"
  by pat_completeness auto
termination
  by (relation "measure (\<lambda>(bitmap, j, byteWidth, w, fg, bg, i, byte, buf). nat (w - i))") auto

declare xbm_cols.simps [simp del]

function xbm_rows :: "(int \<Rightarrow> u8) \<Rightarrow> int \<Rightarrow> int \<Rightarrow> int \<Rightarrow> int \<Rightarrow> u16 \<Rightarrow> u16 \<Rightarrow> int \<Rightarrow> int \<Rightarrow> u8 \<Rightarrow> tft \<Rightarrow> tft" where
  "xbm_rows bitmap x w h byteWidth fg_color_data bg_color_data j y byte s =
     (if j < h then
        (case xbm_cols bitmap j byteWidth w fg_color_data bg_color_data 0 byte (spi_buffer s) of
           (byte', buf) \<Rightarrow>
             xbm_rows bitmap x w h byteWidth fg_color_data bg_color_data (j + 1) (wrap16 (y + 1)) byte'
               (emit [HwWrite (take (nat (2 * w)) buf)]
                  (setAddrWindow x y w 1 (s\<lparr>spi_buffer := buf\<rparr>))))
      else s)"
  by pat_completeness auto
termination
  by (relation "measure (\<lambda>(bitmap, x, w, h, byteWidth, fg, bg, j, y, byte, s). nat (h - j))") auto

declare xbm_rows.simps [simp del]

definition drawXBitmap :: "int \<Rightarrow> int \<Rightarrow> (int \<Rightarrow> u8) \<Rightarrow> int \<Rightarrow> int \<Rightarrow> u16 \<Rightarrow> u16 \<Rightarrow> tft \<Rightarrow> tft" where
  "drawXBitmap x y bitmap w h fg_color bg_color s =
     (let byteWidth = wrap16 (c_div8 (w + 7)) in
      endWrite
        (xbm_rows bitmap x w h byteWidth (SWAP_BYTES fg_color) (SWAP_BYTES bg_color) 0 y 0
           (startWrite s)))"

section \<open>Notions of the specification\<close>

text \<open>
  What an operation adds to the trace, the payloads of its block transfers, and the events
  that set an addressable window.
\<close>

definition issued :: "tft \<Rightarrow> tft \<Rightarrow> event list" where
  "issued s s' = drop (length (bus s)) (bus s')"

fun hw_blocks :: "event list \<Rightarrow> u8 list list" where
  "hw_blocks [] = []"
| "hw_blocks (HwWrite bs # es) = bs # hw_blocks es"
| "hw_blocks (e # es) = hw_blocks es"

fun is_window :: "event \<Rightarrow> bool" where
  "is_window (SetAddrWindow x y w h) = True"
| "is_window e = False"

text \<open>
  A pixel in wire order (high byte first), and as it lies in the memory of the little-endian
  target (low byte first).
\<close>

definition wire_bytes :: "u16 \<Rightarrow> u8 list" where
  "wire_bytes c = [highByte c, lowByte c]"

definition memory_bytes :: "u16 \<Rightarrow> u8 list" where
  "memory_bytes c = [lowByte c, highByte c]"

text \<open>
  The columns a request covers on one axis under the signed reading of the extent: a positive
  extent grows away from the origin, a negative one towards it, both from the first corner.
\<close>

definition covered :: "int \<Rightarrow> int \<Rightarrow> int set" where
  "covered x w = (if w > 0 then {x ..< x + w} else if w < 0 then {x + w + 1 .. x} else {})"

text \<open>
  The bit of an XBM bitmap that decides column \<open>i\<close> of row \<open>j\<close>, counting the bits of a
  byte from the least significant one, and counting them from the most significant one.
\<close>

definition xbm_bit_lsb_first :: "(int \<Rightarrow> u8) \<Rightarrow> int \<Rightarrow> nat \<Rightarrow> nat \<Rightarrow> bool" where
  "xbm_bit_lsb_first bitmap byteWidth j i =
     bit (bitmap (int j * byteWidth + int (i div 8))) (i mod 8)"

definition xbm_bit_msb_first :: "(int \<Rightarrow> u8) \<Rightarrow> int \<Rightarrow> nat \<Rightarrow> nat \<Rightarrow> bool" where
  "xbm_bit_msb_first bitmap byteWidth j i =
     bit (bitmap (int j * byteWidth + int (i div 8))) (7 - i mod 8)"

text \<open>
  What \<open>drawXBitmap\<close> would put on the bus under a reading \<open>sel\<close> of the bitmap: one row
  of \<open>w\<close> pixels in wire order, the foreground colour where the bit is set; and for the
  whole bitmap the chip-select going low, per row a window one row high and one block with
  the row, and the chip-select going high.
\<close>

definition xbm_row :: "((int \<Rightarrow> u8) \<Rightarrow> int \<Rightarrow> nat \<Rightarrow> nat \<Rightarrow> bool) \<Rightarrow> (int \<Rightarrow> u8) \<Rightarrow> int \<Rightarrow> nat \<Rightarrow> nat \<Rightarrow> u16 \<Rightarrow> u16 \<Rightarrow> u8 list" where
  "xbm_row sel bitmap byteWidth j w fg bg =
     concat (map (\<lambda>i. wire_bytes (if sel bitmap byteWidth j i then fg else bg)) [0 ..< w])"

definition xbm_trace :: "((int \<Rightarrow> u8) \<Rightarrow> int \<Rightarrow> nat \<Rightarrow> nat \<Rightarrow> bool) \<Rightarrow> int \<Rightarrow> int \<Rightarrow> (int \<Rightarrow> u8) \<Rightarrow> int \<Rightarrow> int \<Rightarrow> u16 \<Rightarrow> u16 \<Rightarrow> event list" where
  "xbm_trace sel x y bitmap w h fg bg =
     [CS False]
     @ concat (map (\<lambda>j. [SetAddrWindow (to_uint16 x) (to_uint16 (y + int j)) (to_uint16 w) 1,
                        HwWrite (xbm_row sel bitmap ((w + 7) div 8) j (nat w) fg bg)])
                 [0 ..< nat h])
     @ [CS True]"

text \<open>
  A display of 240 by 320 pixels on the hardware bus, after \<open>initSPI\<close>; a pixel array
  whose elements all are \<open>0x1234\<close>; a bitmap whose bytes all are \<open>0x01\<close>; a
  16-bit image whose element \<open>k\<close> is \<open>k\<close>.
\<close>

definition pixels_1234 :: "nat \<Rightarrow> u16" where
  "pixels_1234 i = 0x1234"

definition bitmap_01 :: "int \<Rightarrow> u8" where
  "bitmap_01 k = 0x01"

definition bitmap_ramp :: "int \<Rightarrow> u16" where
  "bitmap_ramp k = word_of_int k"

definition tft0 :: tft where
  "tft0 = \<lparr>connection = TFT_HARD_SPI, gfx_width = 240, gfx_height = 320,
           spi_buffer = replicate 1024 0, bus = []\<rparr>"

section \<open>Bytes and bits\<close>

lemma word_masks:
  "(0xff::u16) = mask 8" "(0xff00::u16) = push_bit 8 (mask 8)" "(0x3F::u16) = mask 6"
  "(0x1F::u16) = mask 5" "(0xF8::u8) = NOT (mask 3)" "(0xFC::u8) = NOT (mask 2)"
  by (simp_all add: mask_eq_exp_minus_1)

lemma bus_emit [simp]: "bus (emit es s) = bus s @ es"
  by (simp add: emit_def)

lemma emit_fields [simp]:
  "connection (emit es s) = connection s"
  "gfx_width (emit es s) = gfx_width s"
  "gfx_height (emit es s) = gfx_height s"
  "spi_buffer (emit es s) = spi_buffer s"
  by (simp_all add: emit_def)

lemma emit_emit: "emit es' (emit es s) = emit (es @ es') s"
  by (simp add: emit_def)

lemma issued_emit [simp]: "issued s (emit es s) = es"
  by (simp add: issued_def)

lemma lowByte_ucast: "lowByte w = ucast w"
  unfolding lowByte_def word_masks
  by (rule bit_word_eqI) (auto simp add: bit_simps)

lemma top_bit: "(w AND 0x8000 \<noteq> 0) = bit (w::u16) 15"
proof -
  have e: "(0x8000::u16) = push_bit 15 1" by simp
  show ?thesis unfolding e by (simp only: bit_iff_and_push_bit_not_eq_0)
qed

lemma len16: "LENGTH(16) = 16" by simp

lemma bitbang_bits:
  "n \<le> 16 \<Longrightarrow>
   bitbang n w = concat (map (\<lambda>k. [MOSI (bit w (15 - k)), SCK True, SCK False]) [0..<n])"
proof (induction n arbitrary: w)
  case 0
  then show ?case by simp
next
  case (Suc n)
  have shift: "bit (push_bit 1 w) (15 - k) = bit w (15 - Suc k)" if "k < n" for k
  proof -
    have "bit (push_bit 1 w) (15 - k) = (1 \<le> 15 - k \<and> possible_bit TYPE(u16) (15 - k) \<and> bit w (15 - k - 1))"
      by (rule bit_push_bit_iff)
    moreover have "1 \<le> 15 - k" "15 - k < 16" "15 - k - 1 = 15 - Suc k"
      using that Suc.prems by arith+
    ultimately show ?thesis by (simp only: possible_bit_word len16 simp_thms)
  qed
  have "bitbang (Suc n) w =
      [MOSI (bit w 15), SCK True, SCK False] @ bitbang n (push_bit 1 w)"
    by (simp add: top_bit)
  also have "bitbang n (push_bit 1 w) =
      concat (map (\<lambda>k. [MOSI (bit (push_bit 1 w) (15 - k)), SCK True, SCK False]) [0..<n])"
    using Suc by simp
  also have "\<dots> = concat (map (\<lambda>k. [MOSI (bit w (15 - Suc k)), SCK True, SCK False]) [0..<n])"
    using shift by (intro arg_cong[where f=concat] map_cong) auto
  also have "\<dots> = concat (map (\<lambda>k. [MOSI (bit w (15 - k)), SCK True, SCK False]) (map Suc [0..<n]))"
    by (simp add: comp_def)
  finally show ?case
    by (simp add: map_Suc_upt upt_conv_Cons del: upt_Suc)
qed

lemma filter_bitbang: "filter is_window (bitbang n w) = []"
  by (induction n arbitrary: w) auto

lemma bitbang_16:
  "bitbang 16 w = concat (map (\<lambda>k. [MOSI (bit w (15 - k)), SCK True, SCK False]) [0..<16])"
  by (rule bitbang_bits) simp

lemma lowByte_SWAP_BYTES: "lowByte (SWAP_BYTES c) = highByte c"
  unfolding lowByte_def highByte_def SWAP_BYTES_def word_masks
  by (rule bit_word_eqI) (auto simp add: bit_simps dest: bit_imp_le_length)

lemma highByte_SWAP_BYTES: "highByte (SWAP_BYTES c) = lowByte c"
  unfolding lowByte_def highByte_def SWAP_BYTES_def word_masks
  by (rule bit_word_eqI) (auto simp add: bit_simps dest: bit_imp_le_length)

lemma color565_red: "drop_bit 11 (color565 r g b) = ucast (drop_bit 3 r)"
  unfolding color565_def word_masks
  by (rule bit_word_eqI) (auto simp add: bit_simps dest: bit_imp_le_length)

lemma color565_green: "drop_bit 5 (color565 r g b) AND 0x3F = ucast (drop_bit 2 g)"
  unfolding color565_def word_masks
  by (rule bit_word_eqI) (auto simp add: bit_simps dest: bit_imp_le_length)

lemma color565_blue: "color565 r g b AND 0x1F = ucast (drop_bit 3 b)"
  unfolding color565_def word_masks
  by (rule bit_word_eqI) (auto simp add: bit_simps dest: bit_imp_le_length)

section \<open>Colour packing\<close>

text \<open>
  Claim C9. \<open>color565(255, 255, 255)\<close> is \<open>0xFFFF\<close>, \<open>color565(0, 0, 0)\<close> is \<open>0\<close> and
  \<open>color565(255, 0, 0)\<close> is \<open>0xF800\<close>. For all inputs the result holds the top five bits
  of red in bits 15 to 11, the top six bits of green in bits 10 to 5 and the top five bits
  of blue in bits 4 to 0.
\<close>

theorem color565_packs_565:
  "color565 255 255 255 = 0xFFFF \<and> color565 0 0 0 = 0 \<and> color565 255 0 0 = 0xF800
   \<and> drop_bit 11 (color565 r g b) = ucast (drop_bit 3 r)
   \<and> drop_bit 5 (color565 r g b) AND 0x3F = ucast (drop_bit 2 g)
   \<and> color565 r g b AND 0x1F = ucast (drop_bit 3 b)"
proof -
  have "color565 255 255 255 = 0xFFFF" "color565 0 0 0 = 0" "color565 255 0 0 = 0xF800"
    by (simp_all add: color565_def)
  then show ?thesis
    by (simp only: color565_red color565_green color565_blue simp_thms)
qed

section \<open>pushColor\<close>

text \<open>
  Claim C10. For every colour and every state of the display, whatever its bounds,
  \<open>pushColor\<close> adds to the trace the chip-select going low, one 16-bit word (on the hardware
  bus one block of the two bytes, high byte first; on the bit-banged bus the sixteen bits,
  most significant first, one clock pulse each) and the chip-select going high. It tests no
  bound and nothing it adds sets an addressable window.
\<close>

theorem pushColor_one_word_no_window:
  "pushColor color s =
     emit ([CS False]
           @ (case connection s of
                TFT_HARD_SPI \<Rightarrow> [HwWrite (wire_bytes color)]
              | TFT_SOFT_SPI \<Rightarrow>
                  concat (map (\<lambda>k. [MOSI (bit color (15 - k)), SCK True, SCK False]) [0..<16]))
           @ [CS True]) s
   \<and> filter is_window (issued s (pushColor color s)) = []"
proof (cases "connection s")
  case TFT_HARD_SPI
  then have "pushColor color s = emit ([CS False] @ [HwWrite (wire_bytes color)] @ [CS True]) s"
    by (simp add: pushColor_def startWrite_def endWrite_def SPI_WRITE16_def emit_emit
        wire_bytes_def highByte_def lowByte_ucast)
  with TFT_HARD_SPI show ?thesis by simp
next
  case TFT_SOFT_SPI
  then have "pushColor color s = emit ([CS False] @ bitbang 16 color @ [CS True]) s"
    by (simp add: pushColor_def startWrite_def endWrite_def SPI_WRITE16_def emit_emit)
  with TFT_SOFT_SPI show ?thesis
    by (simp only: bitbang_16[symmetric] connection_t.case issued_emit filter_append
        filter_bitbang filter.simps is_window.simps if_False append_Nil simp_thms)
qed

section \<open>Narrowing to sixteen bits\<close>

lemma wrap16_id: "int16 v \<Longrightarrow> wrap16 v = v"
  by (simp add: int16_def wrap16_def)

lemma wrap16_low: "- 98304 \<le> v \<Longrightarrow> v < - 32768 \<Longrightarrow> wrap16 v = v + 65536"
proof -
  assume a: "- 98304 \<le> v" "v < - 32768"
  have "(v + 32768) mod 65536 = (v + 32768 + 65536) mod 65536"
    by (rule mod_add_self2[symmetric])
  also have "\<dots> = v + 32768 + 65536" using a by (intro mod_pos_pos_trivial) auto
  finally show ?thesis by (simp add: wrap16_def)
qed

lemma wrap16_high: "32767 < v \<Longrightarrow> v < 98304 \<Longrightarrow> wrap16 v = v - 65536"
proof -
  assume a: "32767 < v" "v < 98304"
  have "(v + 32768) mod 65536 = (v + 32768 - 65536) mod 65536"
    by (rule minus_mod_self2[symmetric])
  also have "\<dots> = v + 32768 - 65536" using a by (intro mod_pos_pos_trivial) auto
  finally show ?thesis by (simp add: wrap16_def)
qed

lemma wrap16_cases:
  "- 98304 \<le> v \<Longrightarrow> v < 98304 \<Longrightarrow>
   wrap16 v = (if v < - 32768 then v + 65536 else if 32767 < v then v - 65536 else v)"
  using wrap16_id[of v] wrap16_low[of v] wrap16_high[of v] by (auto simp: int16_def)

lemma to_uint16_wrap16: "to_uint16 (wrap16 v) = to_uint16 v"
  by (simp add: to_uint16_def wrap16_def mod_diff_left_eq)

section \<open>Negative extents\<close>

text \<open>
  Claim C6, as amended. For every request with a negative extent above \<open>-32768\<close> whose
  far corner \<open>x + w + 1\<close> is still an \<open>int16_t\<close>, the step \<open>x += w + 1; w = -w\<close> yields
  a non-negative extent and covers the same columns as the signed reading of the request.
  The text for \<open>y\<close> and \<open>h\<close> is the same.
\<close>

theorem normalize_negative_extent:
  assumes "int16 x" "w < 0" "- 32768 < w" "- 32768 \<le> x + w + 1"
  shows "0 \<le> snd (normalize x w)
         \<and> covered (fst (normalize x w)) (snd (normalize x w)) = covered x w"
proof -
  have "int16 (x + w + 1)" "int16 (- w)"
    using assms by (auto simp: int16_def)
  then have n: "normalize x w = (x + w + 1, - w)"
    using assms by (simp add: normalize_def wrap16_id)
  have "{x + w + 1 ..< x + 1} = {x + w + 1 .. x}" by auto
  then show ?thesis
    using assms n by (simp add: covered_def)
qed

theorem normalize_negative_extent_witness:
  "int16 0 \<and> (- 5 :: int) < 0 \<and> (- 32768 :: int) < - 5 \<and> (- 32768 :: int) \<le> 0 + - 5 + 1
   \<and> 0 \<le> snd (normalize 0 (- 5))
   \<and> covered (fst (normalize 0 (- 5))) (snd (normalize 0 (- 5))) = covered 0 (- 5)"
proof -
  have h: "int16 0" "(- 5 :: int) < 0" "(- 32768 :: int) < - 5" "(- 32768 :: int) \<le> 0 + - 5 + 1"
    by (simp_all add: int16_def)
  from normalize_negative_extent[OF h] h show ?thesis by simp
qed

text \<open>
  The claim as stated, for every negative extent, fails at the ends of \<open>int16_t\<close>: the
  extent \<open>-32768\<close> has no positive counterpart and stays negative, and from \<open>x = -32768\<close>
  the corner wraps around to the other end of the range.
\<close>

theorem normalize_int16_min_counterexample:
  "int16 0 \<and> int16 (- 32768) \<and> \<not> 0 \<le> snd (normalize 0 (- 32768))
   \<and> int16 (- 2) \<and>
     covered (fst (normalize (- 32768) (- 2))) (snd (normalize (- 32768) (- 2)))
       \<noteq> covered (- 32768) (- 2)"
proof -
  have "normalize 0 (- 32768) = (- 32767, - 32768)"
    by (simp add: normalize_def wrap16_def)
  moreover have "normalize (- 32768) (- 2) = (32767, 2)"
    by (simp add: normalize_def wrap16_def)
  moreover have "covered 32767 2 \<noteq> covered (- 32768) (- 2)"
  proof
    assume "covered 32767 2 = covered (- 32768) (- 2)"
    moreover have "(32767::int) \<in> covered 32767 2" by (simp add: covered_def)
    ultimately have "(32767::int) \<in> covered (- 32768) (- 2)" by simp
    then show False by (simp add: covered_def)
  qed
  ultimately show ?thesis by (simp add: int16_def)
qed

section \<open>Rectangles inside the canvas\<close>

text \<open>
  Claim C7. For every rectangle of positive width and height that lies inside the canvas,
  the rejection and clipping of \<open>writeFillRect\<close> and \<open>fillRect\<close> change nothing:
  \<open>writeFillRectPreclipped\<close> is called with the \<open>x\<close>, \<open>y\<close>, \<open>w\<close>, \<open>h\<close> of the
  request (in \<open>fillRect\<close>, inside the transaction).
\<close>

theorem writeFillRect_inside_is_noop:
  assumes "int16 (gfx_width s)" "int16 (gfx_height s)"
    and "0 \<le> x" "0 \<le> y" "0 < w" "0 < h"
    and "x + w \<le> gfx_width s" "y + h \<le> gfx_height s"
  shows "clip_rect (gfx_width s) (gfx_height s) x y w h = Some (x, y, w, h)
         \<and> writeFillRect x y w h color s = writeFillRectPreclipped x y w h color s
         \<and> fillRect x y w h color s
             = endWrite (writeFillRectPreclipped x y w h color (startWrite s))"
proof -
  have "int16 (x + w - 1)" "int16 (y + h - 1)"
    using assms by (auto simp: int16_def)
  then have x2: "wrap16 (x + w - 1) = x + w - 1" and y2: "wrap16 (y + h - 1) = y + h - 1"
    by (simp_all add: wrap16_id)
  have c: "clip_rect (gfx_width s) (gfx_height s) x y w h = Some (x, y, w, h)"
    using assms by (simp add: clip_rect_def normalize_def x2 y2 Let_def)
  then show ?thesis
    by (simp add: writeFillRect_def fillRect_def)
qed

theorem writeFillRect_inside_is_noop_witness:
  "int16 (gfx_width tft0) \<and> int16 (gfx_height tft0)
   \<and> (0::int) \<le> 10 \<and> (0::int) \<le> 20 \<and> (0::int) < 30 \<and> (0::int) < 40
   \<and> 10 + 30 \<le> gfx_width tft0 \<and> 20 + 40 \<le> gfx_height tft0
   \<and> clip_rect (gfx_width tft0) (gfx_height tft0) 10 20 30 40 = Some (10, 20, 30, 40)
   \<and> writeFillRect 10 20 30 40 0x1234 tft0 = writeFillRectPreclipped 10 20 30 40 0x1234 tft0
   \<and> fillRect 10 20 30 40 0x1234 tft0
       = endWrite (writeFillRectPreclipped 10 20 30 40 0x1234 (startWrite tft0))"
proof -
  have h: "int16 (gfx_width tft0)" "int16 (gfx_height tft0)"
    "(0::int) \<le> 10" "(0::int) \<le> 20" "(0::int) < 30" "(0::int) < 40"
    "10 + 30 \<le> gfx_width tft0" "20 + 40 \<le> gfx_height tft0"
    by (simp_all add: tft0_def int16_def)
  from writeFillRect_inside_is_noop[OF h, of "0x1234"] h show ?thesis by simp
qed

section \<open>Staging and sending a colour run\<close>

lemma take_update2:
  "p + 1 < length buf \<Longrightarrow> take (p + 2) (buf[p := a, p + 1 := b]) = take p buf @ [a, b]"
proof -
  assume l: "p + 1 < length buf"
  have "take (p + 2) (buf[p := a, p + 1 := b]) = take (Suc (Suc p)) (buf[p := a, Suc p := b])"
    by simp
  also have "\<dots> = take (Suc p) (buf[p := a, Suc p := b]) @ [b]"
    using l by (simp add: take_Suc_conv_app_nth)
  also have "take (Suc p) (buf[p := a, Suc p := b]) = take (Suc p) (buf[p := a])"
    by simp
  also have "\<dots> = take p buf @ [a]"
    using l by (simp add: take_Suc_conv_app_nth)
  finally show ?thesis by simp
qed

lemma length_store16 [simp]: "length (store16 buf k v) = length buf"
  by (simp add: store16_def)

lemma take_store16:
  "2 * k + 1 < length buf \<Longrightarrow>
   take (2 * (k + 1)) (store16 buf k v) = take (2 * k) buf @ [lowByte v, highByte v]"
  using take_update2[of "2 * k" buf "lowByte v" "highByte v"] by (simp add: store16_def)

lemma fill16_from:
  "2 * k \<le> SPI_BUFFER_SIZE \<Longrightarrow> length buf = SPI_BUFFER_SIZE \<Longrightarrow>
   fill16 data k buf
     = take (2 * k) buf @ concat (replicate (SPI_BUFFER_SIZE div 2 - k) [lowByte data, highByte data])"
proof (induction data k buf rule: fill16.induct)
  case (1 data k buf)
  show ?case
  proof (cases "2 * k < SPI_BUFFER_SIZE")
    case True
    then have k: "2 * k + 1 < length buf" "2 * (k + 1) \<le> SPI_BUFFER_SIZE"
      using "1.prems" by (auto simp: SPI_BUFFER_SIZE_def)
    have r: "SPI_BUFFER_SIZE div 2 - k = Suc (SPI_BUFFER_SIZE div 2 - (k + 1))"
      using True by (simp add: SPI_BUFFER_SIZE_def)
    have "fill16 data k buf = fill16 data (k + 1) (store16 buf k data)"
      using True by (subst fill16.simps) simp
    also have "\<dots> = take (2 * (k + 1)) (store16 buf k data)
        @ concat (replicate (SPI_BUFFER_SIZE div 2 - (k + 1)) [lowByte data, highByte data])"
      using "1.IH"[OF True k(2)] "1.prems" by simp
    finally show ?thesis
      by (simp only: take_store16[OF k(1)] r replicate_Suc concat.simps append_assoc)
  next
    case False
    then have "2 * k = SPI_BUFFER_SIZE" using "1.prems" by simp
    then show ?thesis using "1.prems" by (subst fill16.simps) (simp add: SPI_BUFFER_SIZE_def)
  qed
qed

lemma stage_color_pattern:
  assumes "length buf = SPI_BUFFER_SIZE"
  shows "stage_color color buf =
     (if highByte color = lowByte color then replicate SPI_BUFFER_SIZE (highByte color)
      else concat (replicate (SPI_BUFFER_SIZE div 2) (wire_bytes color)))"
  using assms fill16_from[of 0 buf "SWAP_BYTES color"]
  by (simp add: stage_color_def memset_def Let_def wire_bytes_def lowByte_SWAP_BYTES highByte_SWAP_BYTES)

lemma take_length_take: "take (length (take n xs)) xs = take n xs"
  by (simp add: min_def)

lemma hw_write_chunks_pos:
  "r > 0 \<Longrightarrow> hw_write_chunks buf r
     = HwWrite (take (nat (min r 1024)) buf) # hw_write_chunks buf (r - 1024)"
  by (subst hw_write_chunks.simps) (simp add: SPI_BUFFER_SIZE_def)

lemma hw_write_chunks_nonpos: "\<not> r > 0 \<Longrightarrow> hw_write_chunks buf r = []"
  by (subst hw_write_chunks.simps) simp

lemma hw_blocks_chunks_prefix:
  "b \<in> set (hw_blocks (hw_write_chunks buf r)) \<Longrightarrow> b = take (length b) buf"
proof (induction buf r rule: hw_write_chunks.induct)
  case (1 buf r)
  show ?case
  proof (cases "r > 0")
    case True
    with "1.prems" have "b = take (nat (min r 1024)) buf
        \<or> b \<in> set (hw_blocks (hw_write_chunks buf (r - int SPI_BUFFER_SIZE)))"
      by (auto simp: hw_write_chunks_pos SPI_BUFFER_SIZE_def)
    then show ?thesis
    proof
      assume "b = take (nat (min r 1024)) buf"
      then show ?thesis by (simp only: take_length_take)
    next
      assume "b \<in> set (hw_blocks (hw_write_chunks buf (r - int SPI_BUFFER_SIZE)))"
      then show ?thesis by (rule "1.IH"[OF True])
    qed
  next
    case False
    with "1.prems" show ?thesis by (simp add: hw_write_chunks_nonpos)
  qed
qed

lemma chunks_count:
  "length (hw_blocks (hw_write_chunks buf r)) = nat ((r + 1023) div 1024)"
proof (induction buf r rule: hw_write_chunks.induct)
  case (1 buf r)
  show ?case
  proof (cases "r > 0")
    case True
    have "(r + 1023) div 1024 = (r - 1024 + 1023) div 1024 + 1" by simp
    moreover have "0 \<le> (r - 1024 + 1023) div 1024" using True by simp
    ultimately have "nat ((r + 1023) div 1024) = Suc (nat ((r - 1024 + 1023) div 1024))"
      by simp
    then show ?thesis
      using "1.IH"[OF True] True by (simp add: hw_write_chunks_pos SPI_BUFFER_SIZE_def)
  next
    case False
    then have "(r + 1023) div 1024 \<le> 0" by simp
    with False show ?thesis by (simp add: hw_write_chunks_nonpos)
  qed
qed

lemma chunks_total:
  "SPI_BUFFER_SIZE \<le> length buf \<Longrightarrow>
   sum_list (map length (hw_blocks (hw_write_chunks buf r))) = nat r"
proof (induction buf r rule: hw_write_chunks.induct)
  case (1 buf r)
  show ?case
  proof (cases "r > 0")
    case True
    show ?thesis
    proof (cases "r > 1024")
      case True
      then show ?thesis
        using "1.IH" "1.prems" by (simp add: hw_write_chunks_pos SPI_BUFFER_SIZE_def)
    next
      case False
      then have "hw_write_chunks buf (r - 1024) = []" by (simp add: hw_write_chunks_nonpos)
      then show ?thesis
        using True False "1.prems" by (simp add: hw_write_chunks_pos SPI_BUFFER_SIZE_def)
    qed
  next
    case False
    then show ?thesis by (simp add: hw_write_chunks_nonpos)
  qed
qed

lemma chunks_bounded:
  "b \<in> set (hw_blocks (hw_write_chunks buf r)) \<Longrightarrow> length b \<le> SPI_BUFFER_SIZE"
proof (induction buf r rule: hw_write_chunks.induct)
  case (1 buf r)
  show ?case
  proof (cases "r > 0")
    case True
    with "1.prems" have "b = take (nat (min r 1024)) buf
        \<or> b \<in> set (hw_blocks (hw_write_chunks buf (r - int SPI_BUFFER_SIZE)))"
      by (auto simp: hw_write_chunks_pos SPI_BUFFER_SIZE_def)
    then show ?thesis
      using "1.IH"[OF True] by (auto simp: SPI_BUFFER_SIZE_def)
  next
    case False
    with "1.prems" show ?thesis by (simp add: hw_write_chunks_nonpos)
  qed
qed

lemma length_concat_replicate: "length (concat (replicate n xs)) = n * length xs"
  by (induction n) simp_all

lemma length_stage_color:
  "length buf = SPI_BUFFER_SIZE \<Longrightarrow> length (stage_color color buf) = SPI_BUFFER_SIZE"
  by (simp add: stage_color_pattern length_concat_replicate wire_bytes_def SPI_BUFFER_SIZE_def)

lemma byte_count_32: "n < 1073741824 \<Longrightarrow> wrap32 (to_uint32 (2 * int n)) = 2 * int n"
  by (simp add: wrap32_def to_uint32_def)

lemma writeColor_hard:
  "connection s = TFT_HARD_SPI \<Longrightarrow> 0 < count \<Longrightarrow>
   writeColor color count s
     = emit (hw_write_chunks (stage_color color (spi_buffer s)) (wrap32 (to_uint32 (2 * int count))))
         (s\<lparr>spi_buffer := stage_color color (spi_buffer s)\<rparr>)"
  by (simp add: writeColor_def Let_def)

lemma issued_emit_buffer [simp]: "issued s (emit es (s\<lparr>spi_buffer := buf\<rparr>)) = es"
  by (simp add: issued_def emit_def)

text \<open>
  Claim C5. On the hardware bus, for every colour and every count above zero,
  \<open>writeColor\<close> fills the scratch buffer once: with the one byte value when the high and
  the low byte of the colour are equal, otherwise with the colour in wire order (high byte
  first) in every 16-bit slot. All blocks it then sends are taken from that one buffer by
  the transfer loop. With a count of zero it returns at once and the state, trace included,
  is unchanged.
\<close>

theorem writeColor_stages_buffer_once:
  assumes "connection s = TFT_HARD_SPI" "length (spi_buffer s) = SPI_BUFFER_SIZE" "0 < count"
  shows "spi_buffer (writeColor color count s)
           = (if highByte color = lowByte color then replicate SPI_BUFFER_SIZE (highByte color)
              else concat (replicate (SPI_BUFFER_SIZE div 2) (wire_bytes color)))
         \<and> issued s (writeColor color count s)
           = hw_write_chunks (spi_buffer (writeColor color count s))
               (wrap32 (to_uint32 (2 * int count)))
         \<and> writeColor color 0 s = s"
proof -
  note w = writeColor_hard[OF assms(1) assms(3), of color]
  have "spi_buffer (writeColor color count s) = stage_color color (spi_buffer s)"
    by (simp add: w)
  moreover have "issued s (writeColor color count s)
      = hw_write_chunks (stage_color color (spi_buffer s)) (wrap32 (to_uint32 (2 * int count)))"
    by (simp add: w)
  moreover have "writeColor color 0 s = s"
    by (simp add: writeColor_def)
  ultimately show ?thesis
    by (simp only: stage_color_pattern[OF assms(2)] simp_thms)
qed

theorem writeColor_stages_buffer_once_witness:
  "connection tft0 = TFT_HARD_SPI \<and> length (spi_buffer tft0) = SPI_BUFFER_SIZE \<and> (0::nat) < 3
   \<and> spi_buffer (writeColor 0xF800 3 tft0) = concat (replicate 512 [0xF8, 0x00])
   \<and> issued tft0 (writeColor 0xF800 3 tft0) = [HwWrite [0xF8, 0x00, 0xF8, 0x00, 0xF8, 0x00]]
   \<and> writeColor 0xF800 0 tft0 = tft0"
proof -
  have h: "connection tft0 = TFT_HARD_SPI" "length (spi_buffer tft0) = SPI_BUFFER_SIZE" "(0::nat) < 3"
    by (simp_all add: tft0_def SPI_BUFFER_SIZE_def)
  have b: "highByte 0xF800 = 0xF8" "lowByte 0xF800 = 0"
    by (simp_all add: highByte_def lowByte_def)
  have r: "wrap32 (to_uint32 6) = 6"
    by (simp add: wrap32_def to_uint32_def)
  have "concat (replicate (Suc (Suc (Suc 509))) [0xF8, 0x00 :: u8])
      = [0xF8, 0x00, 0xF8, 0x00, 0xF8, 0x00] @ concat (replicate 509 [0xF8, 0x00])"
    by (simp only: replicate_Suc concat.simps append.simps)
  then have p: "concat (replicate 512 [0xF8, 0x00 :: u8])
      = [0xF8, 0x00, 0xF8, 0x00, 0xF8, 0x00] @ concat (replicate 509 [0xF8, 0x00])"
    by simp
  have c: "hw_write_chunks (concat (replicate 512 [0xF8, 0x00])) 6 = [HwWrite [0xF8, 0x00, 0xF8, 0x00, 0xF8, 0x00]]"
    unfolding p by (simp add: hw_write_chunks_pos hw_write_chunks_nonpos)
  from writeColor_stages_buffer_once[OF h, of "0xF800"] h show ?thesis
    by (simp add: b r c wire_bytes_def SPI_BUFFER_SIZE_def)
qed

section \<open>Block transfers of a colour run\<close>

text \<open>
  Below \<open>2^30\<close> pixels the byte count \<open>2 * len\<close> fits the \<open>int\<close> of the loop, and the
  blocks are as many as the buffer-sized pieces of \<open>2 * len\<close> bytes, add up to \<open>2 * len\<close>
  bytes and stay within the buffer.
\<close>

lemma writeColor_chunks:
  assumes "connection s = TFT_HARD_SPI" "length (spi_buffer s) = SPI_BUFFER_SIZE"
    and "0 < n" "n < 1073741824"
  shows "length (hw_blocks (issued s (writeColor color n s))) = (2 * n + 1023) div 1024"
    and "sum_list (map length (hw_blocks (issued s (writeColor color n s)))) = 2 * n"
    and "\<forall>b \<in> set (hw_blocks (issued s (writeColor color n s))). length b \<le> SPI_BUFFER_SIZE"
proof -
  let ?buf = "stage_color color (spi_buffer s)"
  have i: "issued s (writeColor color n s) = hw_write_chunks ?buf (2 * int n)"
    using assms by (simp add: writeColor_hard byte_count_32)
  have l: "length ?buf = SPI_BUFFER_SIZE"
    by (rule length_stage_color[OF assms(2)])
  have "nat ((2 * int n + 1023) div 1024) = (2 * n + 1023) div 1024"
    by (metis nat_int of_nat_add of_nat_mult of_nat_numeral zdiv_int)
  then show "length (hw_blocks (issued s (writeColor color n s))) = (2 * n + 1023) div 1024"
    by (simp add: i chunks_count)
  show "sum_list (map length (hw_blocks (issued s (writeColor color n s)))) = 2 * n"
    using l by (simp add: i chunks_total)
  show "\<forall>b \<in> set (hw_blocks (issued s (writeColor color n s))). length b \<le> SPI_BUFFER_SIZE"
    by (auto simp: i dest: chunks_bounded)
qed

text \<open>
  Claim C3 at \<open>2^30\<close> pixels: \<open>2 * len\<close> is \<open>2^31\<close>, which the \<open>int\<close>
  \<open>remaining_bytes\<close> holds as \<open>-2^31\<close>, so the loop sends no block at all; at
  \<open>2^31 + 1\<close> pixels \<open>2 * len\<close> wraps to 2 and one block of two bytes goes out.
\<close>

theorem writeColor_2_30_pixels_sends_nothing:
  "connection tft0 = TFT_HARD_SPI
   \<and> issued tft0 (writeColor 0xF800 1073741824 tft0) = []
   \<and> issued tft0 (writeColor 0xF800 2147483649 tft0) = [HwWrite [0xF8, 0x00]]"
proof -
  have h: "connection tft0 = TFT_HARD_SPI" "length (spi_buffer tft0) = SPI_BUFFER_SIZE"
    by (simp_all add: tft0_def SPI_BUFFER_SIZE_def)
  have b: "highByte 0xF800 = 0xF8" "lowByte 0xF800 = 0"
    by (simp_all add: highByte_def lowByte_def)
  have "concat (replicate (Suc 511) [0xF8, 0x00 :: u8]) = [0xF8, 0x00] @ concat (replicate 511 [0xF8, 0x00])"
    by (simp only: replicate_Suc concat.simps)
  then have s: "stage_color 0xF800 (spi_buffer tft0) = [0xF8, 0x00] @ concat (replicate 511 [0xF8, 0x00])"
    by (simp add: stage_color_pattern[OF h(2)] b wire_bytes_def SPI_BUFFER_SIZE_def)
  have r: "wrap32 (to_uint32 (2 * int 1073741824)) = - 2147483648"
    "wrap32 (to_uint32 (2 * int 2147483649)) = 2"
    by (simp_all add: wrap32_def to_uint32_def)
  have "issued tft0 (writeColor 0xF800 1073741824 tft0) = []"
    by (simp only: writeColor_hard[OF h(1)] zero_less_numeral issued_emit_buffer r)
      (simp add: hw_write_chunks_nonpos)
  moreover have "issued tft0 (writeColor 0xF800 2147483649 tft0) = [HwWrite [0xF8, 0x00]]"
    by (simp only: writeColor_hard[OF h(1)] zero_less_numeral issued_emit_buffer r s)
      (simp add: hw_write_chunks_pos hw_write_chunks_nonpos)
  ultimately show ?thesis using h(1) by simp
qed

section \<open>Packing and sending a pixel array\<close>

lemma length_concat_map_wire:
  "length (concat (map (\<lambda>k. wire_bytes (f k)) ks)) = 2 * length ks"
  by (induction ks) (simp_all add: wire_bytes_def)

lemma chunk_lengths_cong:
  "length buf = SPI_BUFFER_SIZE \<Longrightarrow> length buf' = SPI_BUFFER_SIZE \<Longrightarrow>
   map length (hw_blocks (hw_write_chunks buf r)) = map length (hw_blocks (hw_write_chunks buf' r))"
proof (induction buf r rule: hw_write_chunks.induct)
  case (1 buf r)
  show ?case
  proof (cases "r > 0")
    case True
    then show ?thesis
      using "1.IH"[OF True] "1.prems" by (simp add: hw_write_chunks_pos SPI_BUFFER_SIZE_def)
  next
    case False
    then show ?thesis by (simp add: hw_write_chunks_nonpos)
  qed
qed

lemma fill_pixels_from:
  assumes "even p" "p \<le> SPI_BUFFER_SIZE" "length buf = SPI_BUFFER_SIZE" "i \<le> len"
  shows "fill_pixels colors len p i buf =
     (i + min (len - i) ((SPI_BUFFER_SIZE - p) div 2),
      take p buf
        @ concat (map (\<lambda>k. wire_bytes (colors k)) [i ..< i + min (len - i) ((SPI_BUFFER_SIZE - p) div 2)])
        @ drop (p + 2 * min (len - i) ((SPI_BUFFER_SIZE - p) div 2)) buf)"
  using assms
proof (induction colors len p i buf rule: fill_pixels.induct)
  case (1 colors len p i buf)
  show ?case
  proof (cases "p < SPI_BUFFER_SIZE \<and> i < len")
    case True
    let ?buf' = "buf[p := highByte (colors i), p + 1 := lowByte (colors i)]"
    define n' where "n' = min (len - (i + 1)) ((SPI_BUFFER_SIZE - (p + 2)) div 2)"
    have p1: "p + 1 < length buf"
      using True "1.prems" by (auto simp: SPI_BUFFER_SIZE_def elim!: evenE)
    have p2: "even (p + 2)" "p + 2 \<le> SPI_BUFFER_SIZE" "length ?buf' = SPI_BUFFER_SIZE" "i + 1 \<le> len"
      using True "1.prems" p1 by auto
    have "(SPI_BUFFER_SIZE - p) div 2 = Suc ((SPI_BUFFER_SIZE - (p + 2)) div 2)"
      using p2(2) by (simp add: SPI_BUFFER_SIZE_def)
    moreover have "len - i = Suc (len - (i + 1))"
      using True by auto
    ultimately have n: "min (len - i) ((SPI_BUFFER_SIZE - p) div 2) = Suc n'"
      by (simp only: n'_def min_Suc_Suc)
    have IH: "fill_pixels colors len (p + 2) (i + 1) ?buf' =
       (i + 1 + n', take (p + 2) ?buf' @ concat (map (\<lambda>k. wire_bytes (colors k)) [i + 1 ..< i + 1 + n'])
          @ drop (p + 2 + 2 * n') ?buf')"
      using "1.IH"[OF True p2] by (simp add: n'_def)
    have t: "take (p + 2) ?buf' = take p buf @ wire_bytes (colors i)"
      using take_update2[OF p1] by (simp add: wire_bytes_def)
    have d: "drop (p + 2 + 2 * n') ?buf' = drop (p + 2 * Suc n') buf"
      by simp
    have u: "[i ..< i + Suc n'] = i # [i + 1 ..< i + 1 + n']"
      by (simp add: upt_conv_Cons)
    have "fill_pixels colors len p i buf = fill_pixels colors len (p + 2) (i + 1) ?buf'"
      using True by (subst fill_pixels.simps) simp
    then show ?thesis
      unfolding n IH t d u by simp
  next
    case False
    then have "min (len - i) ((SPI_BUFFER_SIZE - p) div 2) = 0"
      using "1.prems" by (auto simp: min_def)
    moreover have "fill_pixels colors len p i buf = (i, buf)"
      using False by (subst fill_pixels.simps) auto
    ultimately show ?thesis by simp
  qed
qed

lemma writePixels_loop_pos:
  "r > 0 \<Longrightarrow> fill_pixels colors len 0 i (spi_buffer s) = (i', buf) \<Longrightarrow>
   writePixels_loop colors len i r s
     = writePixels_loop colors len i' (r - int SPI_BUFFER_SIZE)
         (emit [HwWrite (take (nat (min r (int SPI_BUFFER_SIZE))) buf)] (s\<lparr>spi_buffer := buf\<rparr>))"
  by (subst writePixels_loop.simps) simp

lemma writePixels_loop_nonpos: "\<not> r > 0 \<Longrightarrow> writePixels_loop colors len i r s = s"
  by (subst writePixels_loop.simps) simp

lemma issued_self [simp]: "issued s s = []"
  by (simp add: issued_def)

lemma issued_append: "bus s' = bus s @ es \<Longrightarrow> issued s s' = es"
  by (simp add: issued_def)

lemma writePixels_loop_bus:
  "bus (writePixels_loop colors len i r s) = bus s @ issued s (writePixels_loop colors len i r s)"
proof (induction colors len i r s rule: writePixels_loop.induct)
  case (1 colors len i r s)
  show ?case
  proof (cases "r > 0")
    case True
    obtain i' buf where f: "fill_pixels colors len 0 i (spi_buffer s) = (i', buf)"
      by (cases "fill_pixels colors len 0 i (spi_buffer s)")
    let ?e = "HwWrite (take (nat (min r (int SPI_BUFFER_SIZE))) buf)"
    let ?s' = "emit [?e] (s\<lparr>spi_buffer := buf\<rparr>)"
    let ?r = "writePixels_loop colors len i' (r - int SPI_BUFFER_SIZE) ?s'"
    have "bus ?r = bus ?s' @ issued ?s' ?r"
      using "1.IH"[OF True f[symmetric]] by simp
    then have "bus ?r = bus s @ ([?e] @ issued ?s' ?r)"
      by simp
    then show ?thesis
      by (simp only: writePixels_loop_pos[OF True f] issued_append[of ?r s])
  next
    case False
    then show ?thesis by (simp add: writePixels_loop_nonpos)
  qed
qed

lemma writePixels_loop_issued:
  assumes "r > 0" "fill_pixels colors len 0 i (spi_buffer s) = (i', buf)"
  shows "issued s (writePixels_loop colors len i r s)
     = HwWrite (take (nat (min r (int SPI_BUFFER_SIZE))) buf)
       # issued (emit [HwWrite (take (nat (min r (int SPI_BUFFER_SIZE))) buf)] (s\<lparr>spi_buffer := buf\<rparr>))
           (writePixels_loop colors len i' (r - int SPI_BUFFER_SIZE)
              (emit [HwWrite (take (nat (min r (int SPI_BUFFER_SIZE))) buf)] (s\<lparr>spi_buffer := buf\<rparr>)))"
proof -
  let ?e = "HwWrite (take (nat (min r (int SPI_BUFFER_SIZE))) buf)"
  let ?s' = "emit [?e] (s\<lparr>spi_buffer := buf\<rparr>)"
  let ?r = "writePixels_loop colors len i' (r - int SPI_BUFFER_SIZE) ?s'"
  have "bus ?r = bus ?s' @ issued ?s' ?r"
    by (rule writePixels_loop_bus)
  then have "bus ?r = bus s @ (?e # issued ?s' ?r)"
    by simp
  then show ?thesis
    by (simp only: writePixels_loop_pos[OF assms] issued_append[of ?r s])
qed

lemma length_fill_pixels:
  assumes "length buf = SPI_BUFFER_SIZE" "i \<le> len"
  shows "length (snd (fill_pixels colors len 0 i buf)) = SPI_BUFFER_SIZE"
proof -
  have "2 * min (len - i) (SPI_BUFFER_SIZE div 2) \<le> SPI_BUFFER_SIZE"
    by (simp add: SPI_BUFFER_SIZE_def)
  then show ?thesis
    using assms fill_pixels_from[of 0 buf i len colors]
    by (simp add: length_concat_map_wire SPI_BUFFER_SIZE_def)
qed

lemma fill_pixels_start:
  assumes "length buf = SPI_BUFFER_SIZE" "i \<le> len"
  shows "fill_pixels colors len 0 i buf =
     (i + min (len - i) 512,
      concat (map (\<lambda>k. wire_bytes (colors k)) [i ..< i + min (len - i) 512])
        @ drop (2 * min (len - i) 512) buf)"
  using fill_pixels_from[of 0 buf i len colors] assms by (simp add: SPI_BUFFER_SIZE_def)

lemma writePixels_loop_bytes:
  assumes "length (spi_buffer s) = SPI_BUFFER_SIZE" "i \<le> len"
    and "r > 0 \<Longrightarrow> r = 2 * int (len - i)" "\<not> r > 0 \<Longrightarrow> i = len"
  shows "concat (hw_blocks (issued s (writePixels_loop colors len i r s)))
     = concat (map (\<lambda>k. wire_bytes (colors k)) [i ..< len])"
  using assms
proof (induction colors len i r s rule: writePixels_loop.induct)
  case (1 colors len i r s)
  show ?case
  proof (cases "r > 0")
    case False
    then show ?thesis using "1.prems" by (simp add: writePixels_loop_nonpos)
  next
    case True
    define n where "n = min (len - i) 512"
    define px where "px = concat (map (\<lambda>k. wire_bytes (colors k)) [i ..< i + n])"
    define buf where "buf = px @ drop (2 * n) (spi_buffer s)"
    have f: "fill_pixels colors len 0 i (spi_buffer s) = (i + n, buf)"
      using fill_pixels_start[OF "1.prems"(1,2)] by (simp add: n_def px_def buf_def)
    have r: "r = 2 * int (len - i)" using True "1.prems" by simp
    have lpx: "length px = 2 * n" by (simp add: px_def length_concat_map_wire)
    have m: "nat (min r (int SPI_BUFFER_SIZE)) = 2 * n"
      unfolding r n_def SPI_BUFFER_SIZE_def by (auto simp: min_def nat_mult_distrib)
    let ?s' = "emit [HwWrite (take (nat (min r (int SPI_BUFFER_SIZE))) buf)] (s\<lparr>spi_buffer := buf\<rparr>)"
    have blk: "take (nat (min r (int SPI_BUFFER_SIZE))) buf = px"
      unfolding m buf_def using lpx by simp
    have lb: "length (spi_buffer ?s') = SPI_BUFFER_SIZE"
      using length_fill_pixels[OF "1.prems"(1,2), of colors] f by simp
    have i': "i + n \<le> len" using "1.prems"(2) by (simp add: n_def)
    have r1: "r - int SPI_BUFFER_SIZE > 0 \<Longrightarrow> r - int SPI_BUFFER_SIZE = 2 * int (len - (i + n))"
      unfolding r n_def SPI_BUFFER_SIZE_def by (simp add: min_def)
    have r2: "\<not> r - int SPI_BUFFER_SIZE > 0 \<Longrightarrow> i + n = len"
      unfolding r n_def SPI_BUFFER_SIZE_def using "1.prems"(2) by (auto simp: min_def)
    have IH: "concat (hw_blocks (issued ?s' (writePixels_loop colors len (i + n) (r - int SPI_BUFFER_SIZE) ?s')))
        = concat (map (\<lambda>k. wire_bytes (colors k)) [i + n ..< len])"
      using "1.IH"[OF True f[symmetric] lb i' r1 r2] by simp
    have split: "[i ..< len] = [i ..< i + n] @ [i + n ..< len]"
      using i' by (metis le_add1 upt_add_eq_append le_Suc_ex)
    have rhs: "concat (map (\<lambda>k. wire_bytes (colors k)) [i ..< len])
        = px @ concat (map (\<lambda>k. wire_bytes (colors k)) [i + n ..< len])"
      by (simp add: split px_def)
    show ?thesis
      unfolding writePixels_loop_issued[OF True f] rhs
      by (simp add: IH[unfolded blk] blk)
  qed
qed

lemma writePixels_loop_sizes:
  assumes "length (spi_buffer s) = SPI_BUFFER_SIZE" "i \<le> len"
  shows "map length (hw_blocks (issued s (writePixels_loop colors len i r s)))
     = map length (hw_blocks (hw_write_chunks (spi_buffer s) r))"
  using assms
proof (induction colors len i r s rule: writePixels_loop.induct)
  case (1 colors len i r s)
  show ?case
  proof (cases "r > 0")
    case False
    then show ?thesis by (simp add: writePixels_loop_nonpos hw_write_chunks_nonpos)
  next
    case True
    obtain i' buf where f: "fill_pixels colors len 0 i (spi_buffer s) = (i', buf)"
      by (cases "fill_pixels colors len 0 i (spi_buffer s)")
    let ?s' = "emit [HwWrite (take (nat (min r (int SPI_BUFFER_SIZE))) buf)] (s\<lparr>spi_buffer := buf\<rparr>)"
    have lb: "length buf = SPI_BUFFER_SIZE"
      using length_fill_pixels[OF "1.prems", of colors] f by simp
    then have lb': "length (spi_buffer ?s') = SPI_BUFFER_SIZE" by simp
    have i': "i' \<le> len"
      using fill_pixels_start[OF "1.prems", of colors] f "1.prems"(2) by auto
    have IH: "map length (hw_blocks (issued ?s' (writePixels_loop colors len i' (r - int SPI_BUFFER_SIZE) ?s')))
        = map length (hw_blocks (hw_write_chunks buf (r - int SPI_BUFFER_SIZE)))"
      using "1.IH"[OF True f[symmetric] lb' i'] by simp
    have a: "length (take (nat (min r (int SPI_BUFFER_SIZE))) buf)
        = length (take (nat (min r (int SPI_BUFFER_SIZE))) (spi_buffer s))"
      using lb "1.prems"(1) by simp
    have b: "map length (hw_blocks (hw_write_chunks buf (r - int SPI_BUFFER_SIZE)))
        = map length (hw_blocks (hw_write_chunks (spi_buffer s) (r - int SPI_BUFFER_SIZE)))"
      using lb "1.prems"(1) by (rule chunk_lengths_cong)
    have c: "hw_write_chunks (spi_buffer s) r
        = HwWrite (take (nat (min r (int SPI_BUFFER_SIZE))) (spi_buffer s))
          # hw_write_chunks (spi_buffer s) (r - int SPI_BUFFER_SIZE)"
      using True by (simp add: hw_write_chunks_pos SPI_BUFFER_SIZE_def)
    show ?thesis
      unfolding writePixels_loop_issued[OF True f] c
      by (simp only: hw_blocks.simps list.map IH a b)
  qed
qed

lemma writePixels_hard_bytes:
  assumes "connection s = TFT_HARD_SPI" "length (spi_buffer s) = SPI_BUFFER_SIZE" "len < 1073741824"
  shows "concat (hw_blocks (issued s (writePixels colors len block bigEndian s)))
     = concat (map (\<lambda>i. wire_bytes (colors i)) [0 ..< len])"
proof (cases "len = 0")
  case True
  then show ?thesis by (simp add: writePixels_def)
next
  case False
  have r: "wrap32 (to_uint32 (2 * int len)) = 2 * int len"
    using assms(3) by (rule byte_count_32)
  have "concat (hw_blocks (issued s (writePixels_loop colors len 0 (2 * int len) s)))
      = concat (map (\<lambda>i. wire_bytes (colors i)) [0 ..< len])"
    using False by (intro writePixels_loop_bytes[OF assms(2)]) simp_all
  then show ?thesis
    using False assms(1) by (simp add: writePixels_def r)
qed

lemma bytes_1234: "wire_bytes 0x1234 = [0x12, 0x34]" "memory_bytes 0x1234 = [0x34, 0x12]"
  by (simp_all add: wire_bytes_def memory_bytes_def highByte_def lowByte_def)

lemma tft0_hard: "connection tft0 = TFT_HARD_SPI" "length (spi_buffer tft0) = SPI_BUFFER_SIZE"
  by (simp_all add: tft0_def SPI_BUFFER_SIZE_def)

text \<open>
  Claim C1, as amended. On the hardware bus \<open>writePixels\<close> puts every pixel of the array
  on the bus high byte first, in array order, whatever \<open>bigEndian\<close> is: the flag is
  not read, and the call with \<open>bigEndian = true\<close> does what the call with
  \<open>bigEndian = false\<close> does. (Stated for fewer than \<open>2^30\<close> pixels, where
  the byte count fits the \<open>int\<close> of the transfer loop.)
\<close>

theorem writePixels_high_byte_first:
  assumes "connection s = TFT_HARD_SPI" "length (spi_buffer s) = SPI_BUFFER_SIZE" "len < 1073741824"
  shows "concat (hw_blocks (issued s (writePixels colors len block bigEndian s)))
           = concat (map (\<lambda>i. wire_bytes (colors i)) [0 ..< len])
         \<and> writePixels colors len block True s = writePixels colors len block False s"
proof -
  have "writePixels colors len block True s = writePixels colors len block False s"
    by (simp add: writePixels_def)
  with writePixels_hard_bytes[OF assms] show ?thesis by simp
qed

theorem writePixels_high_byte_first_witness:
  "connection tft0 = TFT_HARD_SPI \<and> length (spi_buffer tft0) = SPI_BUFFER_SIZE
   \<and> (2::nat) < 1073741824
   \<and> concat (hw_blocks (issued tft0 (writePixels pixels_1234 2 True True tft0)))
       = [0x12, 0x34, 0x12, 0x34]
   \<and> writePixels pixels_1234 2 True True tft0 = writePixels pixels_1234 2 True False tft0"
proof -
  have h: "(2::nat) < 1073741824" by simp
  have u: "[0 ..< 2] = [0, Suc 0]" by (simp add: upt_conv_Cons)
  note t = writePixels_high_byte_first[OF tft0_hard h, of pixels_1234 True True]
  have a: "concat (hw_blocks (issued tft0 (writePixels pixels_1234 2 True True tft0)))
      = [0x12, 0x34, 0x12, 0x34]"
    using t[THEN conjunct1] by (simp add: u pixels_1234_def bytes_1234)
  show ?thesis
    using a t[THEN conjunct2] tft0_hard h by (intro conjI)
qed

text \<open>
  The claim as stated has the bytes of a pixel go out as they lie in memory when
  \<open>bigEndian\<close> is true, and swapped when it is false. One pixel \<open>0x1234\<close> lies in
  memory as \<open>0x34, 0x12\<close> and is sent as \<open>0x12, 0x34\<close> under either value of the flag.
\<close>

theorem writePixels_bigEndian_counterexample:
  "connection tft0 = TFT_HARD_SPI
   \<and> concat (hw_blocks (issued tft0 (writePixels pixels_1234 1 True True tft0))) = [0x12, 0x34]
   \<and> concat (hw_blocks (issued tft0 (writePixels pixels_1234 1 True False tft0))) = [0x12, 0x34]
   \<and> memory_bytes (pixels_1234 0) = [0x34, 0x12]
   \<and> concat (hw_blocks (issued tft0 (writePixels pixels_1234 1 True True tft0)))
       \<noteq> memory_bytes (pixels_1234 0)"
proof -
  have h: "(1::nat) < 1073741824" by simp
  from writePixels_hard_bytes[OF tft0_hard h, of pixels_1234 True True]
    writePixels_hard_bytes[OF tft0_hard h, of pixels_1234 True False] tft0_hard(1)
  show ?thesis
    by (simp add: pixels_1234_def bytes_1234)
qed

text \<open>The blocks of a pixel array, below \<open>2^30\<close> pixels, are those of a colour run.\<close>

lemma writePixels_chunks:
  assumes "connection s = TFT_HARD_SPI" "length (spi_buffer s) = SPI_BUFFER_SIZE"
    and "0 < n" "n < 1073741824"
  shows "length (hw_blocks (issued s (writePixels colors n block bigEndian s))) = (2 * n + 1023) div 1024"
    and "sum_list (map length (hw_blocks (issued s (writePixels colors n block bigEndian s)))) = 2 * n"
    and "\<forall>b \<in> set (hw_blocks (issued s (writePixels colors n block bigEndian s))). length b \<le> SPI_BUFFER_SIZE"
proof -
  let ?bs = "hw_blocks (issued s (writePixels colors n block bigEndian s))"
  let ?cs = "hw_blocks (hw_write_chunks (spi_buffer s) (2 * int n))"
  have "issued s (writePixels colors n block bigEndian s)
      = issued s (writePixels_loop colors n 0 (2 * int n) s)"
    using assms by (simp add: writePixels_def byte_count_32)
  then have m: "map length ?bs = map length ?cs"
    using writePixels_loop_sizes[OF assms(2), of 0 n colors "2 * int n"] by simp
  have "nat ((2 * int n + 1023) div 1024) = (2 * n + 1023) div 1024"
    by (metis nat_int of_nat_add of_nat_mult of_nat_numeral zdiv_int)
  moreover have "length ?bs = length ?cs"
    using m by (metis length_map)
  ultimately show "length ?bs = (2 * n + 1023) div 1024"
    by (simp add: chunks_count)
  show "sum_list (map length ?bs) = 2 * n"
    using assms(2) by (simp add: m chunks_total)
  have "set (map length ?bs) = set (map length ?cs)"
    using m by simp
  then have "length ` set ?bs = length ` set ?cs" by simp
  then show "\<forall>b \<in> set ?bs. length b \<le> SPI_BUFFER_SIZE"
    using chunks_bounded[of _ "spi_buffer s" "2 * int n"] by (metis (no_types, lifting) image_iff)
qed

section \<open>An image clipped on the left\<close>

lemma fold_upt_Suc:
  "fold f [0 ..< Suc n] s = fold (\<lambda>r. f (Suc r)) [0 ..< n] (f 0 s)"
proof -
  have "[0 ..< Suc n] = 0 # map Suc [0 ..< n]"
    by (simp add: upt_conv_Cons map_Suc_upt del: upt_Suc)
  then show ?thesis
    by (simp add: fold_map comp_def del: upt_Suc)
qed

lemma rgb_rows_fold:
  "rgb_rows n pcolors off w saveW s =
     fold (\<lambda>r. writePixels (\<lambda>i. pcolors (off + int r * saveW + int i)) (nat (to_uint32 w)) True False)
       [0 ..< n] s"
proof (induction n arbitrary: off s)
  case 0
  then show ?case by simp
next
  case (Suc n)
  have "(\<lambda>r. writePixels (\<lambda>i. pcolors (off + saveW + int r * saveW + int i)) (nat (to_uint32 w)) True False)
      = (\<lambda>r. writePixels (\<lambda>i. pcolors (off + int (Suc r) * saveW + int i)) (nat (to_uint32 w)) True False)"
    by (simp add: algebra_simps)
  then show ?case
    by (simp only: rgb_rows.simps Suc.IH fold_upt_Suc) simp
qed

text \<open>
  Claim C8. A bitmap of 10 by 10 pixels drawn at \<open>x = -3\<close>, with its ten rows on the
  canvas and the canvas at least seven columns wide: the window is set once to the seven
  columns from 0 and the ten rows from \<open>y\<close>; row \<open>r\<close> is one \<open>writePixels\<close> of 7
  pixels that starts at element \<open>10 r + 3\<close> of the source, so the first three columns of
  each row are skipped and the source advances by the full width of 10 from row to row.
\<close>

theorem drawRGBBitmap_clipped_left:
  assumes "6 < gfx_width s" "int16 (gfx_height s)" "0 \<le> y" "y + 10 \<le> gfx_height s"
  shows "drawRGBBitmap (- 3) y pcolors 10 10 s =
     endWrite
       (fold (\<lambda>r. writePixels (\<lambda>i. pcolors (int r * 10 + 3 + int i)) 7 True False) [0 ..< 10]
          (setAddrWindow 0 y 7 10 (startWrite s)))"
proof -
  have "int16 (y + 10 - 1)" using assms by (simp add: int16_def)
  then have y2: "wrap16 (9 + y) = 9 + y" by (simp add: wrap16_id add.commute)
  have x2: "wrap16 6 = 6" "wrap16 7 = 7" "wrap16 3 = 3"
    by (simp_all add: wrap16_def)
  have n: "nat (to_uint16 10) = 10" "nat (to_uint32 7) = 7"
    by (simp_all add: to_uint16_def to_uint32_def)
  have "drawRGBBitmap (- 3) y pcolors 10 10 s =
     endWrite (rgb_rows 10 pcolors 3 7 10 (setAddrWindow 0 y 7 10 (startWrite s)))"
    using assms by (simp add: drawRGBBitmap_def Let_def x2 y2 n)
  then show ?thesis
    by (simp only: rgb_rows_fold n) (simp add: add.commute add.left_commute)
qed

theorem drawRGBBitmap_clipped_left_witness:
  "6 < gfx_width tft0 \<and> int16 (gfx_height tft0) \<and> (0::int) \<le> 5 \<and> 5 + 10 \<le> gfx_height tft0
   \<and> drawRGBBitmap (- 3) 5 bitmap_ramp 10 10 tft0 =
     endWrite
       (fold (\<lambda>r. writePixels (\<lambda>i. bitmap_ramp (int r * 10 + 3 + int i)) 7 True False) [0 ..< 10]
          (setAddrWindow 0 5 7 10 (startWrite tft0)))"
proof -
  have h: "6 < gfx_width tft0" "int16 (gfx_height tft0)" "(0::int) \<le> 5" "5 + 10 \<le> gfx_height tft0"
    by (simp_all add: tft0_def int16_def)
  show ?thesis
    using h drawRGBBitmap_clipped_left[OF h, of bitmap_ramp] by (intro conjI)
qed

section \<open>Monochrome bitmaps\<close>

lemma and_7_mod_8: "(i::int) AND 7 = i mod 8"
proof -
  have "i AND mask 3 = i mod 2 ^ 3"
    by (simp only: take_bit_eq_mask[symmetric] take_bit_eq_mod)
  moreover have "(mask 3 :: int) = 7"
    by (simp add: mask_eq_exp_minus_1)
  ultimately show ?thesis by simp
qed

lemma and_1_bit: "(drop_bit n (b::u8) AND 1 \<noteq> 0) = bit b n"
  by (simp add: bit_iff_odd_drop_bit and_one_eq odd_iff_mod_2_eq_one)

lemma memory_bytes_SWAP_BYTES: "memory_bytes (SWAP_BYTES c) = wire_bytes c"
  by (simp add: memory_bytes_def wire_bytes_def lowByte_SWAP_BYTES highByte_SWAP_BYTES)

lemma drop_store16_after: "k < m \<Longrightarrow> drop (2 * m) (store16 buf k v) = drop (2 * m) buf"
  by (simp add: store16_def)

lemma xbm_cols_step:
  "i < w \<Longrightarrow>
   xbm_cols bitmap j bw w fgd bgd i byte buf =
     xbm_cols bitmap j bw w fgd bgd (i + 1)
       (if i AND 7 \<noteq> 0 then drop_bit 1 byte else bitmap (j * bw + c_div8 i))
       (store16 buf (nat i)
          (if (if i AND 7 \<noteq> 0 then drop_bit 1 byte else bitmap (j * bw + c_div8 i)) AND 0x01 \<noteq> 0
           then fgd else bgd))"
  by (subst xbm_cols.simps) (simp add: Let_def)

lemma xbm_cols_done: "\<not> i < w \<Longrightarrow> xbm_cols bitmap j bw w fgd bgd i byte buf = (byte, buf)"
  by (subst xbm_cols.simps) simp

lemma xbm_cols_from:
  assumes "0 \<le> i" "i \<le> w" "w \<le> 512" "length buf = SPI_BUFFER_SIZE"
    and "i mod 8 \<noteq> 0 \<longrightarrow> byte = drop_bit (nat ((i - 1) mod 8)) (bitmap (j * bw + (i - 1) div 8))"
  shows "snd (xbm_cols bitmap j bw w fgd bgd i byte buf) =
     take (2 * nat i) buf
     @ concat (map (\<lambda>k. memory_bytes (if bit (bitmap (j * bw + int (k div 8))) (k mod 8) then fgd else bgd))
                 [nat i ..< nat w])
     @ drop (2 * nat w) buf"
  using assms
proof (induction bitmap j bw w fgd bgd i byte buf rule: xbm_cols.induct)
  case (1 bitmap j bw w fgd bgd i byte buf)
  show ?case
  proof (cases "i < w")
    case False
    then have "i = w" using "1.prems" by simp
    then show ?thesis by (simp add: xbm_cols_done)
  next
    case True
    define B where "B = bitmap (j * bw + i div 8)"
    define byte' where "byte' = (if i AND 7 \<noteq> 0 then drop_bit 1 byte else bitmap (j * bw + c_div8 i))"
    define v where "v = (if byte' AND 0x01 \<noteq> 0 then fgd else bgd)"
    have b: "byte' = drop_bit (nat (i mod 8)) B"
    proof (cases "i mod 8 = 0")
      case True
      then show ?thesis
        using "1.prems"(1) by (simp add: byte'_def B_def and_7_mod_8 c_div8_def)
    next
      case False
      have "(i - 1) div 8 = i div 8 \<and> (i - 1) mod 8 = i mod 8 - 1 \<and> 1 \<le> i mod 8"
        using False by presburger
      then have d: "(i - 1) div 8 = i div 8" "nat (i mod 8) = Suc (nat ((i - 1) mod 8))"
        by auto
      have "byte' = drop_bit 1 (drop_bit (nat ((i - 1) mod 8)) B)"
        using False "1.prems"(5) by (simp add: byte'_def B_def and_7_mod_8 d)
      then show ?thesis by (simp add: d drop_bit_drop_bit)
    qed
    have ni: "int (nat i div 8) = i div 8" "nat i mod 8 = nat (i mod 8)"
      using "1.prems"(1) by (simp_all add: zdiv_int nat_mod_distrib)
    have vv: "v = (if bit (bitmap (j * bw + int (nat i div 8))) (nat i mod 8) then fgd else bgd)"
      unfolding v_def b and_1_bit ni B_def ..
    have inv: "(i + 1) mod 8 \<noteq> 0 \<longrightarrow>
        byte' = drop_bit (nat ((i + 1 - 1) mod 8)) (bitmap (j * bw + (i + 1 - 1) div 8))"
      using b by (simp add: B_def)
    have l: "length (store16 buf (nat i) v) = SPI_BUFFER_SIZE" using "1.prems" by simp
    have IH: "snd (xbm_cols bitmap j bw w fgd bgd (i + 1) byte' (store16 buf (nat i) v)) =
       take (2 * nat (i + 1)) (store16 buf (nat i) v)
       @ concat (map (\<lambda>k. memory_bytes (if bit (bitmap (j * bw + int (k div 8))) (k mod 8) then fgd else bgd))
                   [nat (i + 1) ..< nat w])
       @ drop (2 * nat w) (store16 buf (nat i) v)"
    proof -
      have "0 \<le> i + 1" "i + 1 \<le> w" using True "1.prems"(1) by simp_all
      from "1.IH"[OF True byte'_def this "1.prems"(3) l[unfolded v_def] inv]
      show ?thesis by (simp only: v_def)
    qed
    have n1: "nat (i + 1) = nat i + 1" using "1.prems"(1) by simp
    have inb: "2 * nat i + 1 < length buf"
      using True "1.prems" by (simp add: SPI_BUFFER_SIZE_def)
    have t: "take (2 * (nat i + 1)) (store16 buf (nat i) v) = take (2 * nat i) buf @ memory_bytes v"
      using take_store16[OF inb] by (simp add: memory_bytes_def)
    have d: "drop (2 * nat w) (store16 buf (nat i) v) = drop (2 * nat w) buf"
      using True "1.prems"(1) by (intro drop_store16_after) simp
    have u: "[nat i ..< nat w] = nat i # [nat i + 1 ..< nat w]"
      using True "1.prems"(1) by (simp add: upt_conv_Cons)
    let ?F = "\<lambda>k. memory_bytes (if bit (bitmap (j * bw + int (k div 8))) (k mod 8) then fgd else bgd)"
    have step: "xbm_cols bitmap j bw w fgd bgd i byte buf
        = xbm_cols bitmap j bw w fgd bgd (i + 1) byte' (store16 buf (nat i) v)"
      using True by (simp add: xbm_cols_step byte'_def v_def)
    have "snd (xbm_cols bitmap j bw w fgd bgd i byte buf)
        = take (2 * nat (i + 1)) (store16 buf (nat i) v)
          @ concat (map ?F [nat (i + 1) ..< nat w]) @ drop (2 * nat w) (store16 buf (nat i) v)"
      by (simp only: step IH)
    also have "\<dots> = (take (2 * nat i) buf @ memory_bytes v)
          @ concat (map ?F [nat i + 1 ..< nat w]) @ drop (2 * nat w) buf"
      by (simp only: n1 t d)
    also have "\<dots> = take (2 * nat i) buf
          @ concat (map ?F (nat i # [nat i + 1 ..< nat w])) @ drop (2 * nat w) buf"
      by (simp add: vv)
    finally show ?thesis by (simp only: u)
  qed
qed

lemma xbm_row_block:
  assumes "0 < w" "w \<le> 512" "length buf = SPI_BUFFER_SIZE"
  shows "take (nat (2 * w))
           (snd (xbm_cols bitmap (int j) bw w (SWAP_BYTES fg) (SWAP_BYTES bg) 0 byte buf))
         = xbm_row xbm_bit_lsb_first bitmap bw j (nat w) fg bg"
    and "length (snd (xbm_cols bitmap (int j) bw w (SWAP_BYTES fg) (SWAP_BYTES bg) 0 byte buf))
         = SPI_BUFFER_SIZE"
proof -
  let ?F = "\<lambda>k. memory_bytes (if bit (bitmap (int j * bw + int (k div 8))) (k mod 8)
                                 then SWAP_BYTES fg else SWAP_BYTES bg)"
  have F: "?F = (\<lambda>k. wire_bytes (if xbm_bit_lsb_first bitmap bw j k then fg else bg))"
    by (auto simp: xbm_bit_lsb_first_def memory_bytes_SWAP_BYTES)
  have s: "snd (xbm_cols bitmap (int j) bw w (SWAP_BYTES fg) (SWAP_BYTES bg) 0 byte buf)
      = xbm_row xbm_bit_lsb_first bitmap bw j (nat w) fg bg @ drop (2 * nat w) buf"
    using xbm_cols_from[of 0 w buf byte bitmap "int j" bw "SWAP_BYTES fg" "SWAP_BYTES bg"] assms
    by (simp add: F xbm_row_def)
  have l: "length (xbm_row xbm_bit_lsb_first bitmap bw j (nat w) fg bg) = 2 * nat w"
    by (simp add: xbm_row_def length_concat_map_wire)
  have n: "nat (2 * w) = 2 * nat w" using assms(1) by (simp add: nat_mult_distrib)
  show "take (nat (2 * w))
           (snd (xbm_cols bitmap (int j) bw w (SWAP_BYTES fg) (SWAP_BYTES bg) 0 byte buf))
         = xbm_row xbm_bit_lsb_first bitmap bw j (nat w) fg bg"
    unfolding s n using l by simp
  show "length (snd (xbm_cols bitmap (int j) bw w (SWAP_BYTES fg) (SWAP_BYTES bg) 0 byte buf))
         = SPI_BUFFER_SIZE"
    unfolding s using l assms by (simp add: SPI_BUFFER_SIZE_def)
qed

lemma xbm_rows_step:
  "j < h \<Longrightarrow> xbm_cols bitmap j bw w fgd bgd 0 byte (spi_buffer s) = (byte', buf) \<Longrightarrow>
   xbm_rows bitmap x w h bw fgd bgd j y byte s =
     xbm_rows bitmap x w h bw fgd bgd (j + 1) (wrap16 (y + 1)) byte'
       (emit [HwWrite (take (nat (2 * w)) buf)] (setAddrWindow x y w 1 (s\<lparr>spi_buffer := buf\<rparr>)))"
  by (subst xbm_rows.simps) simp

lemma xbm_rows_done: "\<not> j < h \<Longrightarrow> xbm_rows bitmap x w h bw fgd bgd j y byte s = s"
  by (subst xbm_rows.simps) simp

lemma row_state:
  "emit [HwWrite bs] (setAddrWindow x y w 1 (s\<lparr>spi_buffer := buf\<rparr>))
     = (s\<lparr>spi_buffer := buf\<rparr>)\<lparr>bus := bus s @ [SetAddrWindow (to_uint16 x) (to_uint16 y) (to_uint16 w) 1, HwWrite bs]\<rparr>"
  by (simp add: emit_def setAddrWindow_def to_uint16_def)

lemma xbm_rows_bus:
  "bus (xbm_rows bitmap x w h bw fgd bgd j y byte s)
     = bus s @ issued s (xbm_rows bitmap x w h bw fgd bgd j y byte s)"
proof (induction bitmap x w h bw fgd bgd j y byte s rule: xbm_rows.induct)
  case (1 bitmap x w h bw fgd bgd j y byte s)
  show ?case
  proof (cases "j < h")
    case False
    then show ?thesis by (simp add: xbm_rows_done)
  next
    case True
    obtain byte' buf where c: "xbm_cols bitmap j bw w fgd bgd 0 byte (spi_buffer s) = (byte', buf)"
      by (cases "xbm_cols bitmap j bw w fgd bgd 0 byte (spi_buffer s)")
    let ?s' = "emit [HwWrite (take (nat (2 * w)) buf)] (setAddrWindow x y w 1 (s\<lparr>spi_buffer := buf\<rparr>))"
    let ?r = "xbm_rows bitmap x w h bw fgd bgd (j + 1) (wrap16 (y + 1)) byte' ?s'"
    have "bus ?r = bus ?s' @ issued ?s' ?r"
      using "1.IH"[OF True c[symmetric]] by simp
    then have "bus ?r = bus s @ (drop (length (bus s)) (bus ?s') @ issued ?s' ?r)"
      by (simp add: row_state)
    then show ?thesis
      by (simp only: xbm_rows_step[OF True c] issued_append[of ?r s])
  qed
qed

lemma to_uint16_wrap16_add: "to_uint16 (wrap16 a + b) = to_uint16 (a + b)"
proof -
  have "(wrap16 a + b) mod 65536 = (wrap16 a mod 65536 + b) mod 65536"
    by (simp add: mod_add_left_eq)
  also have "wrap16 a mod 65536 = a mod 65536"
    using to_uint16_wrap16[of a] by (simp add: to_uint16_def)
  finally show ?thesis by (simp add: to_uint16_def mod_add_left_eq)
qed

lemma xbm_rows_issued:
  assumes "0 < w" "w \<le> 512" "length (spi_buffer s) = SPI_BUFFER_SIZE"
  shows "issued s (xbm_rows bitmap x w h bw (SWAP_BYTES fg) (SWAP_BYTES bg) (int j) y byte s)
     = concat (map (\<lambda>r. [SetAddrWindow (to_uint16 x) (to_uint16 (y + int r - int j)) (to_uint16 w) 1,
                         HwWrite (xbm_row xbm_bit_lsb_first bitmap bw r (nat w) fg bg)])
                 [j ..< nat h])"
  using assms(3)
proof (induction "nat h - j" arbitrary: j y byte s)
  case 0
  then have "\<not> int j < h" "[j ..< nat h] = []" by simp_all
  then show ?case by (simp add: xbm_rows_done)
next
  case (Suc n)
  then have jh: "int j < h" "j < nat h" by simp_all
  let ?fgd = "SWAP_BYTES fg" and ?bgd = "SWAP_BYTES bg"
  obtain byte' buf where c: "xbm_cols bitmap (int j) bw w ?fgd ?bgd 0 byte (spi_buffer s) = (byte', buf)"
    by (cases "xbm_cols bitmap (int j) bw w ?fgd ?bgd 0 byte (spi_buffer s)")
  have blk: "take (nat (2 * w)) buf = xbm_row xbm_bit_lsb_first bitmap bw j (nat w) fg bg"
    and lb: "length buf = SPI_BUFFER_SIZE"
    using xbm_row_block[OF assms(1,2) Suc.prems, of bitmap j bw fg bg byte] c by simp_all
  let ?e = "[SetAddrWindow (to_uint16 x) (to_uint16 y) (to_uint16 w) 1,
             HwWrite (xbm_row xbm_bit_lsb_first bitmap bw j (nat w) fg bg)]"
  let ?s' = "emit [HwWrite (take (nat (2 * w)) buf)] (setAddrWindow x y w 1 (s\<lparr>spi_buffer := buf\<rparr>))"
  let ?r = "xbm_rows bitmap x w h bw ?fgd ?bgd (int j + 1) (wrap16 (y + 1)) byte' ?s'"
  have sj: "int (Suc j) = int j + 1" by simp
  have s': "bus ?s' = bus s @ ?e" "length (spi_buffer ?s') = SPI_BUFFER_SIZE"
    using lb by (simp_all add: row_state blk)
  have n: "n = nat h - Suc j" using Suc.hyps(2) by simp
  have IH: "issued ?s' ?r
      = concat (map (\<lambda>r. [SetAddrWindow (to_uint16 x) (to_uint16 (wrap16 (y + 1) + int r - (int j + 1))) (to_uint16 w) 1,
                          HwWrite (xbm_row xbm_bit_lsb_first bitmap bw r (nat w) fg bg)])
                  [Suc j ..< nat h])"
    using Suc.hyps(1)[OF n s'(2), of "wrap16 (y + 1)" byte'] by (simp only: sj)
  have y': "to_uint16 (wrap16 (y + 1) + int r - (int j + 1)) = to_uint16 (y + int r - int j)" for r
    using to_uint16_wrap16_add[of "y + 1" "int r - (int j + 1)"] by (simp add: algebra_simps)
  have "bus ?r = bus ?s' @ issued ?s' ?r" by (rule xbm_rows_bus)
  then have "bus ?r = bus s @ (?e @ issued ?s' ?r)" by (simp only: s'(1) append_assoc)
  then have "issued s ?r = ?e @ issued ?s' ?r" by (rule issued_append)
  moreover have "xbm_rows bitmap x w h bw ?fgd ?bgd (int j) y byte s = ?r"
    by (rule xbm_rows_step[OF jh(1) c])
  moreover have "[j ..< nat h] = j # [Suc j ..< nat h]"
    using jh(2) by (simp add: upt_conv_Cons)
  ultimately show ?case
    by (simp only: IH y' list.map concat.simps append.simps of_nat_diff) simp
qed

lemma drawXBitmap_issued:
  assumes "0 < w" "w \<le> 512" "length (spi_buffer s) = SPI_BUFFER_SIZE"
  shows "issued s (drawXBitmap x y bitmap w h fg_color bg_color s)
     = xbm_trace xbm_bit_lsb_first x y bitmap w h fg_color bg_color"
proof -
  have bw: "wrap16 (c_div8 (w + 7)) = (w + 7) div 8"
    using assms(1,2) by (simp add: c_div8_def wrap16_def)
  let ?s1 = "startWrite s"
  let ?r = "xbm_rows bitmap x w h ((w + 7) div 8) (SWAP_BYTES fg_color) (SWAP_BYTES bg_color)
              (int 0) y 0 ?s1"
  let ?rows = "concat (map (\<lambda>j. [SetAddrWindow (to_uint16 x) (to_uint16 (y + int j)) (to_uint16 w) 1,
                        HwWrite (xbm_row xbm_bit_lsb_first bitmap ((w + 7) div 8) j (nat w) fg_color bg_color)])
                 [0 ..< nat h])"
  have l1: "length (spi_buffer ?s1) = SPI_BUFFER_SIZE"
    using assms(3) by (simp add: startWrite_def)
  have "issued ?s1 ?r = ?rows"
    using xbm_rows_issued[OF assms(1,2) l1, of bitmap x h "(w + 7) div 8" fg_color bg_color 0 y 0]
    by simp
  moreover have "bus ?r = bus ?s1 @ issued ?s1 ?r"
    by (rule xbm_rows_bus)
  ultimately have "bus (endWrite ?r) = bus s @ ([CS False] @ ?rows @ [CS True])"
    by (simp add: endWrite_def startWrite_def)
  then have "issued s (endWrite ?r) = [CS False] @ ?rows @ [CS True]"
    by (rule issued_append)
  then show ?thesis
    by (simp add: drawXBitmap_def bw xbm_trace_def)
qed

lemma upt_8: "[0 ..< 8] = [0, 1, 2, 3, 4, 5, 6, 7]"
  by (simp add: upt_rec)

lemma bytes_FFFF: "wire_bytes 0xFFFF = [0xFF, 0xFF]" "wire_bytes 0 = [0, 0]"
  by (simp_all add: wire_bytes_def highByte_def lowByte_def)

lemma xbm_row_01:
  "xbm_row xbm_bit_lsb_first bitmap_01 1 0 8 0xFFFF 0 = [0xFF, 0xFF, 0, 0, 0, 0, 0, 0, 0, 0, 0, 0, 0, 0, 0, 0]"
  "xbm_row xbm_bit_msb_first bitmap_01 1 0 8 0xFFFF 0 = [0, 0, 0, 0, 0, 0, 0, 0, 0, 0, 0, 0, 0, 0, 0xFF, 0xFF]"
  by (simp_all add: xbm_row_def xbm_bit_lsb_first_def xbm_bit_msb_first_def bitmap_01_def upt_8
      bytes_FFFF bit_1_iff)

text \<open>
  Claim C2, as amended. For a bitmap at most 512 pixels wide (a row then fits the scratch
  buffer), \<open>drawXBitmap\<close> sends, inside one transaction, for every row a window one row
  high and one block in which column \<open>i\<close> has the foreground colour when bit \<open>i mod 8\<close>,
  counted from the least significant bit, of byte \<open>i div 8\<close> of the row is set, and the
  background colour otherwise: each source byte supplies 8 columns, least significant bit
  first, left to right.
\<close>

theorem drawXBitmap_lsb_first:
  assumes "0 < w" "w \<le> 512" "length (spi_buffer s) = SPI_BUFFER_SIZE"
  shows "issued s (drawXBitmap x y bitmap w h fg_color bg_color s)
     = xbm_trace xbm_bit_lsb_first x y bitmap w h fg_color bg_color"
  using assms by (rule drawXBitmap_issued)

theorem drawXBitmap_lsb_first_witness:
  "(0::int) < 8 \<and> (8::int) \<le> 512 \<and> length (spi_buffer tft0) = SPI_BUFFER_SIZE
   \<and> issued tft0 (drawXBitmap 0 0 bitmap_01 8 1 0xFFFF 0 tft0)
       = [CS False, SetAddrWindow 0 0 8 1,
          HwWrite [0xFF, 0xFF, 0, 0, 0, 0, 0, 0, 0, 0, 0, 0, 0, 0, 0, 0], CS True]"
proof -
  have h: "(0::int) < 8" "(8::int) \<le> 512" by simp_all
  have "xbm_trace xbm_bit_lsb_first 0 0 bitmap_01 8 1 0xFFFF 0
      = [CS False, SetAddrWindow 0 0 8 1,
          HwWrite [0xFF, 0xFF, 0, 0, 0, 0, 0, 0, 0, 0, 0, 0, 0, 0, 0, 0], CS True]"
    by (simp add: xbm_trace_def xbm_row_01 to_uint16_def)
  with drawXBitmap_lsb_first[OF h tft0_hard(2), of 0 0 bitmap_01 1 "0xFFFF" 0] h tft0_hard(2)
  show ?thesis by simp
qed

text \<open>
  The claim as stated takes the most significant bit of each byte first. For one row of
  eight columns from the byte \<open>0x01\<close> that reading colours the last column; the code colours
  the first.
\<close>

theorem drawXBitmap_msb_first_counterexample:
  "issued tft0 (drawXBitmap 0 0 bitmap_01 8 1 0xFFFF 0 tft0)
     = [CS False, SetAddrWindow 0 0 8 1,
        HwWrite [0xFF, 0xFF, 0, 0, 0, 0, 0, 0, 0, 0, 0, 0, 0, 0, 0, 0], CS True]
   \<and> xbm_trace xbm_bit_msb_first 0 0 bitmap_01 8 1 0xFFFF 0
     = [CS False, SetAddrWindow 0 0 8 1,
        HwWrite [0, 0, 0, 0, 0, 0, 0, 0, 0, 0, 0, 0, 0, 0, 0xFF, 0xFF], CS True]
   \<and> issued tft0 (drawXBitmap 0 0 bitmap_01 8 1 0xFFFF 0 tft0)
     \<noteq> xbm_trace xbm_bit_msb_first 0 0 bitmap_01 8 1 0xFFFF 0"
proof -
  have h: "(0::int) < 8" "(8::int) \<le> 512" by simp_all
  have a: "issued tft0 (drawXBitmap 0 0 bitmap_01 8 1 0xFFFF 0 tft0)
     = [CS False, SetAddrWindow 0 0 8 1,
        HwWrite [0xFF, 0xFF, 0, 0, 0, 0, 0, 0, 0, 0, 0, 0, 0, 0, 0, 0], CS True]"
    by (simp add: drawXBitmap_issued[OF h tft0_hard(2)] xbm_trace_def xbm_row_01 to_uint16_def)
  have b: "xbm_trace xbm_bit_msb_first 0 0 bitmap_01 8 1 0xFFFF 0
     = [CS False, SetAddrWindow 0 0 8 1,
        HwWrite [0, 0, 0, 0, 0, 0, 0, 0, 0, 0, 0, 0, 0, 0, 0xFF, 0xFF], CS True]"
    by (simp add: xbm_trace_def xbm_row_01 to_uint16_def)
  show ?thesis unfolding a b by simp
qed

section \<open>Requests off the canvas\<close>

lemma covered_off_canvas:
  "0 < gw \<Longrightarrow> covered x w \<inter> {0 ..< gw} = {} \<longleftrightarrow>
     (w = 0 \<or> (0 < w \<and> (gw \<le> x \<or> x + w \<le> 0)) \<or> (w < 0 \<and> (x < 0 \<or> gw \<le> x + w + 1)))"
proof -
  have "{x + w + 1 .. x} = {x + w + 1 ..< x + 1}" by auto
  then show "0 < gw \<Longrightarrow> ?thesis"
    by (auto simp add: covered_def)
qed

lemma axis_rejected:
  assumes "int16 x" "int16 w" "w \<noteq> 0" "0 < gw" "covered x w \<inter> {0 ..< gw} = {}"
  shows "\<not> (fst (normalize x w) < gw
            \<and> 0 \<le> wrap16 (fst (normalize x w) + snd (normalize x w) - 1))"
proof (cases "0 < w")
  case True
  then have n: "normalize x w = (x, w)" by (simp add: normalize_def)
  from True assms have d: "gw \<le> x \<or> x + w \<le> 0"
    by (simp add: covered_off_canvas)
  show ?thesis
  proof (cases "gw \<le> x")
    case True
    then show ?thesis by (simp add: n)
  next
    case False
    with d have "x + w - 1 < 0" by simp
    moreover have "int16 (x + w - 1)"
      using assms(1,2) True \<open>x + w - 1 < 0\<close> by (simp add: int16_def)
    ultimately show ?thesis by (simp add: n wrap16_id)
  qed
next
  case False
  then have neg: "w < 0" using assms(3) by simp
  then have d: "x < 0 \<or> gw \<le> x + w + 1"
    using assms by (simp add: covered_off_canvas)
  have rx: "- 98304 \<le> x + w + 1" "x + w + 1 < 98304" and rw: "- 98304 \<le> - w" "- w < 98304"
    using assms(1,2) by (simp_all add: int16_def)
  define x' where "x' = wrap16 (x + w + 1)"
  define w' where "w' = wrap16 (- w)"
  have x': "x' = (if x + w + 1 < - 32768 then x + w + 1 + 65536 else x + w + 1)"
    using wrap16_cases[OF rx] assms(1) neg by (simp add: x'_def int16_def)
  have w': "w' = (if w = - 32768 then - 32768 else - w)"
    using wrap16_cases[OF rw] assms(2) neg by (auto simp: w'_def int16_def)
  have r2: "- 98304 \<le> x' + w' - 1" "x' + w' - 1 < 98304"
    using assms(1,2) neg by (auto simp: x' w' int16_def split: if_splits)
  have x2: "wrap16 (x' + w' - 1) = x"
    using wrap16_cases[OF r2] assms(1,2) neg by (auto simp: x' w' int16_def split: if_splits)
  have n: "normalize x w = (x', w')"
    using neg by (simp add: normalize_def x'_def w'_def)
  show ?thesis
  proof (cases "x < 0")
    case True
    then show ?thesis by (simp add: n x2)
  next
    case False
    with d have "gw \<le> x + w + 1" by simp
    moreover have "x + w + 1 \<ge> - 32768" using False assms(2) by (simp add: int16_def)
    ultimately have "gw \<le> x'" by (simp add: x')
    then show ?thesis by (simp add: n)
  qed
qed

lemma clip_rect_rejects:
  assumes "int16 x" "int16 y" "int16 w" "int16 h" "0 < gw" "0 < gh"
    and "covered x w \<inter> {0 ..< gw} = {} \<or> covered y h \<inter> {0 ..< gh} = {}"
  shows "clip_rect gw gh x y w h = None"
proof (cases "w = 0 \<or> h = 0")
  case True
  then show ?thesis by (auto simp: clip_rect_def)
next
  case False
  then have nz: "w \<noteq> 0" "h \<noteq> 0" by simp_all
  obtain x' w' where nx: "normalize x w = (x', w')" by (cases "normalize x w")
  obtain y' h' where ny: "normalize y h = (y', h')" by (cases "normalize y h")
  from assms(7) have "\<not> (x' < gw \<and> 0 \<le> wrap16 (x' + w' - 1)) \<or> \<not> (y' < gh \<and> 0 \<le> wrap16 (y' + h' - 1))"
    using axis_rejected[OF assms(1,3) nz(1) assms(5)] axis_rejected[OF assms(2,4) nz(2) assms(6)]
    by (auto simp: nx ny)
  then show ?thesis
    using nz by (auto simp: clip_rect_def nx ny Let_def)
qed

lemma clip_hline_rejects:
  assumes "int16 x" "int16 w" "0 < gw"
    and "covered x w \<inter> {0 ..< gw} = {} \<or> \<not> (0 \<le> y \<and> y < gh)"
  shows "clip_hline gw gh x y w = None"
proof (cases "w = 0 \<or> \<not> (0 \<le> y \<and> y < gh)")
  case True
  then show ?thesis by (auto simp: clip_hline_def)
next
  case False
  obtain x' w' where nx: "normalize x w = (x', w')" by (cases "normalize x w")
  from False assms(4) have "\<not> (x' < gw \<and> 0 \<le> wrap16 (x' + w' - 1))"
    using axis_rejected[OF assms(1,2) _ assms(3)] by (auto simp: nx)
  then show ?thesis
    by (auto simp: clip_hline_def nx Let_def)
qed

lemma clip_vline_rejects:
  assumes "int16 y" "int16 h" "0 < gh"
    and "covered y h \<inter> {0 ..< gh} = {} \<or> \<not> (0 \<le> x \<and> x < gw)"
  shows "clip_vline gw gh x y h = None"
proof (cases "h = 0 \<or> \<not> (0 \<le> x \<and> x < gw)")
  case True
  then show ?thesis by (auto simp: clip_vline_def)
next
  case False
  obtain y' h' where ny: "normalize y h = (y', h')" by (cases "normalize y h")
  from False assms(4) have "\<not> (y' < gh \<and> 0 \<le> wrap16 (y' + h' - 1))"
    using axis_rejected[OF assms(1,2) _ assms(3)] by (auto simp: ny)
  then show ?thesis
    by (auto simp: clip_vline_def ny Let_def)
qed

text \<open>
  On a canvas with at least one pixel, a request that covers no pixel of it leaves the
  state, and so the trace, as it is: a pixel outside the bounds, a rectangle or a line whose
  extent is zero or whose columns or rows miss the canvas, and a bitmap of positive width
  and height that misses the canvas. No transaction is opened.
\<close>

lemma off_canvas_rejected:
  assumes "int16 x" "int16 y" "int16 w" "int16 h" "0 < gfx_width s" "0 < gfx_height s"
  shows "\<not> (0 \<le> x \<and> x < gfx_width s \<and> 0 \<le> y \<and> y < gfx_height s) \<Longrightarrow> drawPixel x y color s = s"
    and "covered x w \<inter> {0 ..< gfx_width s} = {} \<or> covered y h \<inter> {0 ..< gfx_height s} = {}
         \<Longrightarrow> fillRect x y w h color s = s"
    and "covered x w \<inter> {0 ..< gfx_width s} = {} \<or> \<not> (0 \<le> y \<and> y < gfx_height s)
         \<Longrightarrow> drawFastHLine x y w color s = s"
    and "covered y h \<inter> {0 ..< gfx_height s} = {} \<or> \<not> (0 \<le> x \<and> x < gfx_width s)
         \<Longrightarrow> drawFastVLine x y h color s = s"
    and "0 < w \<Longrightarrow> 0 < h \<Longrightarrow>
         covered x w \<inter> {0 ..< gfx_width s} = {} \<or> covered y h \<inter> {0 ..< gfx_height s} = {}
         \<Longrightarrow> drawRGBBitmap x y pcolors w h s = s"
proof -
  show "\<not> (0 \<le> x \<and> x < gfx_width s \<and> 0 \<le> y \<and> y < gfx_height s) \<Longrightarrow> drawPixel x y color s = s"
    by (auto simp: drawPixel_def)
  show "covered x w \<inter> {0 ..< gfx_width s} = {} \<or> covered y h \<inter> {0 ..< gfx_height s} = {}
         \<Longrightarrow> fillRect x y w h color s = s"
    using clip_rect_rejects[OF assms(1-4) assms(5,6)] by (simp add: fillRect_def)
  show "covered x w \<inter> {0 ..< gfx_width s} = {} \<or> \<not> (0 \<le> y \<and> y < gfx_height s)
         \<Longrightarrow> drawFastHLine x y w color s = s"
    using clip_hline_rejects[OF assms(1,3) assms(5)] by (simp add: drawFastHLine_def)
  show "covered y h \<inter> {0 ..< gfx_height s} = {} \<or> \<not> (0 \<le> x \<and> x < gfx_width s)
         \<Longrightarrow> drawFastVLine x y h color s = s"
    using clip_vline_rejects[OF assms(2,4) assms(6)] by (simp add: drawFastVLine_def)
  show "drawRGBBitmap x y pcolors w h s = s"
    if p: "0 < w" "0 < h"
      and e: "covered x w \<inter> {0 ..< gfx_width s} = {} \<or> covered y h \<inter> {0 ..< gfx_height s} = {}"
  proof -
    from e p assms(5,6)
    have d: "gfx_width s \<le> x \<or> x + w \<le> 0 \<or> gfx_height s \<le> y \<or> y + h \<le> 0"
      by (auto simp: covered_off_canvas)
    have "x + w \<le> 0 \<Longrightarrow> wrap16 (x + w - 1) < 0"
      using assms(1,3) p by (subst wrap16_id) (auto simp: int16_def)
    moreover have "y + h \<le> 0 \<Longrightarrow> wrap16 (y + h - 1) < 0"
      using assms(2,4) p by (subst wrap16_id) (auto simp: int16_def)
    ultimately show ?thesis
      using d by (auto simp: drawRGBBitmap_def Let_def)
  qed
qed

text \<open>
  Claim C4 for a bitmap of zero extent. \<open>drawRGBBitmap\<close> tests the four edges only: with
  \<open>w = 0\<close> at \<open>x = 5\<close> the right edge \<open>x + w - 1\<close> is 4, nothing is rejected, and the
  transaction is opened, a window of width zero is set and the transaction is closed. The
  same happens with \<open>h = 0\<close>.
\<close>

theorem drawRGBBitmap_zero_width_opens_transaction:
  "issued tft0 (drawRGBBitmap 5 5 bitmap_ramp 0 10 tft0) = [CS False, SetAddrWindow 5 5 0 10, CS True]
   \<and> issued tft0 (drawRGBBitmap 5 5 bitmap_ramp 10 0 tft0) = [CS False, SetAddrWindow 5 5 10 0, CS True]"
proof -
  have w: "wrap16 4 = 4" "wrap16 14 = 14" "nat (to_uint16 10) = 10" "nat (to_uint16 0) = 0"
    "nat (to_uint32 0) = 0" "to_uint16 5 = 5" "to_uint16 10 = 10" "to_uint16 0 = 0"
    by (simp_all add: wrap16_def to_uint16_def to_uint32_def)
  have z: "writePixels c 0 True False s = s" for c s
    by (simp add: writePixels_def)
  have r: "rgb_rows n bitmap_ramp off 0 0 s = s" for n off s
    by (induction n arbitrary: off s) (simp_all add: z w)
  have "drawRGBBitmap 5 5 bitmap_ramp 0 10 tft0
      = endWrite (rgb_rows 10 bitmap_ramp 0 0 0 (setAddrWindow 5 5 0 10 (startWrite tft0)))"
    by (simp add: drawRGBBitmap_def Let_def tft0_def w)
  moreover have "drawRGBBitmap 5 5 bitmap_ramp 10 0 tft0
      = endWrite (rgb_rows 0 bitmap_ramp 0 10 10 (setAddrWindow 5 5 10 0 (startWrite tft0)))"
    by (simp add: drawRGBBitmap_def Let_def tft0_def w)
  ultimately show ?thesis
    by (simp add: r endWrite_def startWrite_def setAddrWindow_def issued_def w)
qed

end
